theory Spec2Isabelle
  imports Main "HOL-Library.Multiset" "HOL-Library.Extended_Nat"
begin

section \<open>Strings and numbers of the host language\<close>

text \<open>
  A \<^typ>\<open>string\<close> stands for a JavaScript string whose code units are all below 256
  (a \<^typ>\<open>char\<close> is one code unit).
\<close>

definition isDigit :: "char \<Rightarrow> bool" where
  "isDigit c = (c \<in> set ''0123456789'')"

definition digitVal :: "char \<Rightarrow> nat" where
  "digitVal c = of_char c - 48"

text \<open>The integer that the leading decimal digits of a string denote.\<close>

definition decimalValue :: "string \<Rightarrow> nat" where
  "decimalValue s = foldl (\<lambda>n c. 10 * n + digitVal c) 0 (takeWhile isDigit s)"

text \<open>
  The number value of a non-negative integer: the double nearest to it, a tie going to the
  even significand. A double has 53 significant bits, so the integers up to \<open>2^53\<close> are
  kept and a larger one is rounded to a multiple of a power of two; what rounds to
  \<open>2^1024\<close> or more is \<open>Infinity\<close>. The non-negative integral doubles and \<open>Infinity\<close>
  are the values of \<^typ>\<open>enat\<close>.
\<close>

fun bitLength :: "nat \<Rightarrow> nat" where
  "bitLength n = (if n = 0 then 0 else Suc (bitLength (n div 2)))"

declare bitLength.simps [simp del]

definition toDouble :: "nat \<Rightarrow> enat" where
  "toDouble n =
     (if bitLength n \<le> 53 then enat n
      else
        let e = bitLength n - 53;
            q = n div 2 ^ e;
            r = n mod 2 ^ e;
            half = 2 ^ (e - 1);
            rounded = (if half < r \<or> (r = half \<and> odd q) then q + 1 else q) * 2 ^ e
        in if 2 ^ 1024 \<le> rounded then \<infinity> else enat rounded)"

text \<open>
  \<open>parseInt\<close> on the strings it receives here, which are strings of one or more decimal
  digits: the number value of the integer they denote. (For more than 20 significant
  digits the language lets an engine read the digits after the 20th as zeros; this is the
  exact reading.)
\<close>

definition parseInt :: "string \<Rightarrow> enat" where
  "parseInt s = toDouble (decimalValue s)"

text \<open>
  A JavaScript number: \<open>Dec m e\<close> is the finite value \<open>m * 10^e\<close>, kept in the normal
  form where \<open>m\<close> has no trailing zero (\<open>Dec 0 0\<close> is zero, of either sign), so that two
  numbers are the same value exactly when they are the same term. These are the numbers
  that \<open>Number\<close> makes of the values and keys of the edit dialog; their rounding to
  doubles and the range of doubles are not modelled.
\<close>

datatype jsnum = NaN | PosInfinity | NegInfinity | Dec int int

function normDec :: "int \<Rightarrow> int \<Rightarrow> jsnum" where
  "normDec m e =
     (if m = 0 then Dec 0 0
      else if m mod 10 = 0 then normDec (m div 10) (e + 1)
      else Dec m e)"
  by pat_completeness auto
termination
  by (relation "measure (\<lambda>(m, e). nat \<bar>m\<bar>)") auto

declare normDec.simps [simp del]

definition ofNat :: "nat \<Rightarrow> jsnum" where
  "ofNat n = normDec (int n) 0"

definition negate :: "jsnum \<Rightarrow> jsnum" where
  "negate x =
     (case x of NaN \<Rightarrow> NaN | PosInfinity \<Rightarrow> NegInfinity | NegInfinity \<Rightarrow> PosInfinity
      | Dec m e \<Rightarrow> Dec (- m) e)"

definition isNaN :: "jsnum \<Rightarrow> bool" where
  "isNaN x = (x = NaN)"

text \<open>\<open>a !== b\<close> on numbers: \<open>NaN\<close> differs from every number, itself included.\<close>

definition strictNeq :: "jsnum \<Rightarrow> jsnum \<Rightarrow> bool" where
  "strictNeq a b = (a = NaN \<or> b = NaN \<or> a \<noteq> b)"

subsection \<open>\<open>Number(string)\<close>\<close>

definition isStrWhiteSpace :: "char \<Rightarrow> bool" where
  "isStrWhiteSpace c = ((of_char c :: nat) \<in> {9, 10, 11, 12, 13, 32, 160})"

definition trimWs :: "string \<Rightarrow> string" where
  "trimWs s = rev (dropWhile isStrWhiteSpace (rev (dropWhile isStrWhiteSpace s)))"

definition radixVal :: "char \<Rightarrow> nat" where
  "radixVal c =
     (if c \<in> set ''0123456789'' then of_char c - 48
      else if c \<in> set ''abcdef'' then of_char c - 87
      else if c \<in> set ''ABCDEF'' then of_char c - 55
      else 16)"

definition radixDigits :: "nat \<Rightarrow> string \<Rightarrow> nat option" where
  "radixDigits b s =
     (if s \<noteq> [] \<and> list_all (\<lambda>c. radixVal c < b) s
      then Some (foldl (\<lambda>n c. b * n + radixVal c) 0 s) else None)"

text \<open>\<open>0x\<close>, \<open>0o\<close> and \<open>0b\<close> literals (they take no sign).\<close>

definition nonDecimal :: "string \<Rightarrow> jsnum option" where
  "nonDecimal s =
     (case s of
        z # p # ds \<Rightarrow>
          if z = CHR ''0'' \<and> p \<in> set ''xXoObB'' then
            Some (case radixDigits (if p \<in> set ''xX'' then 16 else if p \<in> set ''oO'' then 8 else 2) ds of
                    None \<Rightarrow> NaN | Some n \<Rightarrow> ofNat n)
          else None
      | _ \<Rightarrow> None)"

definition signedDigits :: "string \<Rightarrow> int option" where
  "signedDigits s =
     (case s of
        [] \<Rightarrow> None
      | c # r \<Rightarrow>
          if c = CHR ''+'' then (if r \<noteq> [] \<and> list_all isDigit r then Some (int (decimalValue r)) else None)
          else if c = CHR ''-'' then (if r \<noteq> [] \<and> list_all isDigit r then Some (- int (decimalValue r)) else None)
          else if list_all isDigit s then Some (int (decimalValue s)) else None)"

definition exponentPart :: "string \<Rightarrow> int option" where
  "exponentPart s =
     (case s of
        [] \<Rightarrow> Some 0
      | c # r \<Rightarrow> if c = CHR ''e'' \<or> c = CHR ''E'' then signedDigits r else None)"

text \<open>What follows the integer digits: the digits after a decimal point, and the rest.\<close>

definition fractionPart :: "string \<Rightarrow> string \<times> string" where
  "fractionPart r =
     (case r of
        [] \<Rightarrow> ([], [])
      | c # r' \<Rightarrow>
          if c = CHR ''.'' then (takeWhile isDigit r', dropWhile isDigit r') else ([], r))"

definition unsignedDecimal :: "string \<Rightarrow> jsnum" where
  "unsignedDecimal s =
     (if s = ''Infinity'' then PosInfinity
      else
        let ip = takeWhile isDigit s;
            (fp, r) = fractionPart (dropWhile isDigit s)
        in if ip = [] \<and> fp = [] then NaN
           else (case exponentPart r of
                   None \<Rightarrow> NaN
                 | Some e \<Rightarrow> normDec (int (decimalValue (ip @ fp))) (e - int (length fp))))"

text \<open>
  \<open>Number\<close> of a string: blanks at both ends are dropped; the empty string is zero; what
  is no numeric literal is \<open>NaN\<close>.
\<close>

definition Number :: "string \<Rightarrow> jsnum" where
  "Number str =
     (case trimWs str of
        [] \<Rightarrow> Dec 0 0
      | c # r \<Rightarrow>
          (case nonDecimal (c # r) of
             Some x \<Rightarrow> x
           | None \<Rightarrow>
               if c = CHR ''+'' then unsignedDecimal r
               else if c = CHR ''-'' then negate (unsignedDecimal r)
               else unsignedDecimal (c # r)))"

subsection \<open>\<open>Number.prototype.toString\<close>\<close>

definition digitChar :: "nat \<Rightarrow> char" where
  "digitChar d = ''0123456789'' ! d"

function showNat :: "nat \<Rightarrow> string" where
  "showNat n =
     (if n < 10 then [digitChar n]
      else showNat (n div 10) @ [digitChar (n mod 10)])"
  by pat_completeness auto
termination
  by (relation "measure id") auto

declare showNat.simps [simp del]

text \<open>
  The digits \<open>s\<close> of the mantissa and the exponent \<open>e\<close>: plain digits up to \<open>10^21\<close>, a
  decimal point down to \<open>10^-6\<close>, the exponent notation beyond.
\<close>

definition showPositive :: "string \<Rightarrow> int \<Rightarrow> string" where
  "showPositive s e =
     (let k = int (length s); n = k + e in
      if k \<le> n \<and> n \<le> 21 then s @ replicate (nat (n - k)) CHR ''0''
      else if 0 < n \<and> n \<le> 21 then take (nat n) s @ ''.'' @ drop (nat n) s
      else if - 6 < n \<and> n \<le> 0 then ''0.'' @ replicate (nat (- n)) CHR ''0'' @ s
      else (if k = 1 then s else take 1 s @ ''.'' @ drop 1 s) @ ''e''
           @ (if 0 \<le> n - 1 then ''+'' else ''-'') @ showNat (nat \<bar>n - 1\<bar>))"

definition numToString :: "jsnum \<Rightarrow> string" where
  "numToString x =
     (case x of
        NaN \<Rightarrow> ''NaN''
      | PosInfinity \<Rightarrow> ''Infinity''
      | NegInfinity \<Rightarrow> ''-Infinity''
      | Dec m e \<Rightarrow>
          if m = 0 then ''0''
          else (if m < 0 then ''-'' else []) @ showPositive (showNat (nat \<bar>m\<bar>)) e)"

section \<open>Token Extractor\<close>

text \<open>
  \<open>text.match(/\{(\d+)\}/g)\<close>: the matches of the pattern, left to right, without overlap.
  At an opening brace the greedy \<open>\d+\<close> takes the longest run of digits, and
  the match succeeds when that run is not empty and a closing brace follows it; otherwise
  the scan moves on by one character.
\<close>

function matchParams :: "string \<Rightarrow> string list" where
  "matchParams [] = []"
| "matchParams (c # cs) =
     (if c = CHR ''{'' \<and> takeWhile isDigit cs \<noteq> [] then
        (case dropWhile isDigit cs of
           [] \<Rightarrow> matchParams cs
         | d # rest \<Rightarrow>
             if d = CHR ''}'' then (c # takeWhile isDigit cs @ [d]) # matchParams rest
             else matchParams cs)
      else matchParams cs)"
  by pat_completeness auto
termination
proof (relation "measure length")
  fix c :: char and cs d rest
  assume "dropWhile isDigit cs = d # rest"
  then have "length (d # rest) \<le> length cs"
    using length_dropWhile_le [of isDigit cs] by simp
  then show "(rest, c # cs) \<in> measure length" by simp
qed auto

text \<open>\<open>match.replace(/[{}]/g, '')\<close>\<close>

definition stripBraces :: "string \<Rightarrow> string" where
  "stripBraces m = filter (\<lambda>c. c \<noteq> CHR ''{'' \<and> c \<noteq> CHR ''}'') m"

text \<open>
  The numbers of one text cell: \<open>None\<close> when the pattern has no match (\<open>match\<close> returns
  \<open>null\<close> and the field gets no entry), else the values sorted by \<open>(a, b) => a - b\<close>
  (on two infinities the difference is \<open>NaN\<close>, which the sort reads as equal).
\<close>

definition extractParameters :: "string \<Rightarrow> enat list option" where
  "extractParameters txt =
     (case matchParams txt of
        [] \<Rightarrow> None
      | m # ms \<Rightarrow> Some (sort (map (\<lambda>x. parseInt (stripBraces x)) (m # ms))))"

section \<open>Record Comparator and Batch Runner\<close>

text \<open>
  The first element of a cell value: an object of type \<open>'text'\<close> carrying a string, or any
  other object. A record maps a field id to its cell value; \<open>None\<close> stands for a value
  that is absent or not an array.
\<close>

datatype segment = TextSeg string | OtherSeg

datatype hostRecord =
  HostRecord (hostRecordId: string) (hostFields: "string \<Rightarrow> segment list option")

type_synonym fieldMeta = "string \<times> string"

abbreviation (input) metaId :: "fieldMeta \<Rightarrow> string" where
  "metaId \<equiv> fst"

abbreviation (input) metaName :: "fieldMeta \<Rightarrow> string" where
  "metaName \<equiv> snd"

record ParameterInfo =
  fieldName :: string
  fieldId :: string
  parameters :: "enat list"
  order :: nat

text \<open>
  The name of a reported record: the text of its index cell, or the default label built
  from the record id.
\<close>

datatype recordLabel = CellText string | DefaultLabel string

record RecordComparison =
  recordId :: string
  recordName :: recordLabel
  differences :: "(string \<times> enat list) list"

definition MAX_SAFE_INTEGER :: nat where
  "MAX_SAFE_INTEGER = 9007199254740991"

text \<open>\<open>fieldMetaList.find(f => f.id === field.id)\<close> and the index of what it finds.\<close>

definition findMeta :: "fieldMeta list \<Rightarrow> string \<Rightarrow> fieldMeta option" where
  "findMeta fieldMetaList fid = find (\<lambda>f. metaId f = fid) fieldMetaList"

definition indexOfMeta :: "fieldMeta list \<Rightarrow> string \<Rightarrow> nat" where
  "indexOfMeta fieldMetaList fid = length (takeWhile (\<lambda>f. metaId f \<noteq> fid) fieldMetaList)"

definition paramInfoOf :: "hostRecord \<Rightarrow> fieldMeta list \<Rightarrow> string \<Rightarrow> ParameterInfo option" where
  "paramInfoOf record fieldMetaList fid =
     (case hostFields record fid of
        Some (TextSeg txt # _) \<Rightarrow>
          (case extractParameters txt of
             None \<Rightarrow> None
           | Some numbers \<Rightarrow>
               Some (case findMeta fieldMetaList fid of
                  None \<Rightarrow> \<lparr>fieldName = fid, fieldId = fid, parameters = numbers,
                            order = MAX_SAFE_INTEGER\<rparr>
                | Some fieldMeta \<Rightarrow> \<lparr>fieldName = metaName fieldMeta, fieldId = fid,
                            parameters = numbers, order = indexOfMeta fieldMetaList fid\<rparr>))
      | _ \<Rightarrow> None)"

text \<open>
  \<open>extractParametersFromRecord\<close> (lines 518 to 548): the entries of the fields that carry
  tokens, in view order (the sort is stable).
\<close>

definition extractParametersFromRecord ::
  "hostRecord \<Rightarrow> string list \<Rightarrow> fieldMeta list \<Rightarrow> ParameterInfo list" where
  "extractParametersFromRecord record fieldList fieldMetaList =
     sort_key order (List.map_filter (paramInfoOf record fieldMetaList) fieldList)"

text \<open>
  The inner loop of the comparison: the first entry is the baseline; every later entry of
  a selected field whose sorted numbers differ from the sorted baseline is a difference
  \<open>(fieldName, expected, actual)\<close>. The code compares the JSON texts of the two sorted
  arrays, which are the same exactly when the arrays hold the same numbers (the text of
  \<open>Infinity\<close> is \<open>null\<close>, and no other number of an array has it).
\<close>

fun findDifferences ::
  "string list \<Rightarrow> ParameterInfo list \<Rightarrow> (string \<times> enat list \<times> enat list) list" where
  "findDifferences selectedFields [] = []"
| "findDifferences selectedFields (base # others) =
     map (\<lambda>p. (fieldName p, parameters base, parameters p))
       (filter (\<lambda>p. fieldId p \<in> set selectedFields
                  \<and> sort (parameters base) \<noteq> sort (parameters p)) others)"

definition allFieldParams :: "string list \<Rightarrow> ParameterInfo list \<Rightarrow> (string \<times> enat list) list" where
  "allFieldParams selectedFields params =
     map (\<lambda>p. (fieldName p, parameters p)) (filter (\<lambda>p. fieldId p \<in> set selectedFields) params)"

definition recordNameOf :: "hostRecord \<Rightarrow> fieldMeta \<Rightarrow> recordLabel" where
  "recordNameOf record indexFieldMeta =
     (case hostFields record (metaId indexFieldMeta) of
        Some (TextSeg txt # _) \<Rightarrow> if txt \<noteq> [] then CellText txt else DefaultLabel (hostRecordId record)
      | _ \<Rightarrow> DefaultLabel (hostRecordId record))"

text \<open>
  What can go wrong in a run: a call of the host fails with a message, or the index field
  is read from an empty field list (\<open>fieldMetaList[0].id\<close> on \<open>undefined\<close>).
\<close>

datatype error = HostFailure string | TypeError

fun compareRecords ::
  "string list \<Rightarrow> string list \<Rightarrow> fieldMeta list \<Rightarrow> hostRecord list \<Rightarrow> RecordComparison list
     \<Rightarrow> error + RecordComparison list" where
  "compareRecords selectedFields fieldList fieldMetaList [] comparisons = Inr comparisons"
| "compareRecords selectedFields fieldList fieldMetaList (record # rest) comparisons =
     (let params = extractParametersFromRecord record fieldList fieldMetaList in
      if length params < 2 then compareRecords selectedFields fieldList fieldMetaList rest comparisons
      else if findDifferences selectedFields params = []
        then compareRecords selectedFields fieldList fieldMetaList rest comparisons
      else (case fieldMetaList of
              [] \<Rightarrow> Inl TypeError
            | indexFieldMeta # _ \<Rightarrow>
                compareRecords selectedFields fieldList fieldMetaList rest
                  (comparisons @ [\<lparr>recordId = hostRecordId record,
                                   recordName = recordNameOf record indexFieldMeta,
                                   differences = allFieldParams selectedFields params\<rparr>])))"

text \<open>
  The host, as the answers it gives to the calls of one run: the four set-up calls, and
  the pages it returns to the successive \<open>getRecords\<close> calls. A page is its records and
  its continuation token.
\<close>

type_synonym page = "hostRecord list \<times> string option"

record host =
  getActiveTable :: "error + unit"
  getActiveView :: "error + unit"
  getFieldList :: "error + string list"
  getFieldMetaList :: "error + fieldMeta list"
  getRecords :: "(error + page) list"

definition truthy :: "string option \<Rightarrow> bool" where
  "truthy pageToken = (case pageToken of None \<Rightarrow> False | Some t \<Rightarrow> t \<noteq> [])"

text \<open>
  The paging loop. It ends at the first page without a token, or at the first failure;
  \<open>None\<close> is a run that waits for an answer the host never gives.
\<close>

fun fetchRecords :: "(error + page) list \<Rightarrow> hostRecord list \<Rightarrow> (error + hostRecord list) option" where
  "fetchRecords [] allRecords = None"
| "fetchRecords (Inl e # answers) allRecords = Some (Inl e)"
| "fetchRecords (Inr (records, pageToken) # answers) allRecords =
     (if truthy pageToken then fetchRecords answers (allRecords @ records)
      else Some (Inr (allRecords @ records)))"

text \<open>
  The body of the \<open>try\<close> block of \<open>compareAllRecords\<close> (lines 551 to 660): \<open>Inl\<close> is the
  exception it throws, \<open>Inr None\<close> the early
  return on an empty table, \<open>Inr (Some cs)\<close> the comparisons handed to \<open>setComparisons\<close>.
\<close>

definition tryCompare :: "host \<Rightarrow> string list \<Rightarrow> (error + RecordComparison list option) option" where
  "tryCompare h selectedFields =
     (case getActiveTable h of Inl e \<Rightarrow> Some (Inl e) | Inr _ \<Rightarrow>
      case getActiveView h of Inl e \<Rightarrow> Some (Inl e) | Inr _ \<Rightarrow>
      case getFieldList h of Inl e \<Rightarrow> Some (Inl e) | Inr fieldList \<Rightarrow>
      case getFieldMetaList h of Inl e \<Rightarrow> Some (Inl e) | Inr fieldMetaList \<Rightarrow>
      case fetchRecords (getRecords h) [] of
        None \<Rightarrow> None
      | Some (Inl e) \<Rightarrow> Some (Inl e)
      | Some (Inr allRecords) \<Rightarrow>
          if allRecords = [] then Some (Inr None)
          else (case compareRecords selectedFields fieldList fieldMetaList allRecords [] of
                  Inl e \<Rightarrow> Some (Inl e)
                | Inr comparisons \<Rightarrow> Some (Inr (Some comparisons))))"

text \<open>
  The state of the component that a run writes. The progress messages shown while a run
  is under way are each replaced before the run ends; the state keeps the last message.
\<close>

datatype message =
  NoMessage | MsgNoRecords | MsgDone nat | MsgError error

record appState =
  comparisons :: "RecordComparison list"
  isComparing :: bool
  floatingMessage :: message

definition compareAllRecords :: "host \<Rightarrow> string list \<Rightarrow> appState \<Rightarrow> appState option" where
  "compareAllRecords h selectedFields st =
     (case tryCompare h selectedFields of
        None \<Rightarrow> None
      | Some (Inl e) \<Rightarrow> Some (st\<lparr>floatingMessage := MsgError e, isComparing := False\<rparr>)
      | Some (Inr None) \<Rightarrow> Some (st\<lparr>floatingMessage := MsgNoRecords, isComparing := False\<rparr>)
      | Some (Inr (Some cs)) \<Rightarrow>
          Some (st\<lparr>comparisons := cs, floatingMessage := MsgDone (length cs),
                   isComparing := False\<rparr>))"

section \<open>Substitution Resolver\<close>

text \<open>
  An object \<open>Record<number, string>\<close> is the list of its entries \<open>(key, value)\<close> in the order
  \<open>Object.entries\<close> enumerates them; keys are strings, as JavaScript has them. A \<open>Map\<close> is
  the list of its entries in insertion order: \<open>set\<close> on a key that is present replaces
  the value in place.
\<close>

type_synonym jsobject = "(string \<times> string) list"

fun mapSet :: "('k \<times> 'v) list \<Rightarrow> 'k \<Rightarrow> 'v \<Rightarrow> ('k \<times> 'v) list" where
  "mapSet [] k v = [(k, v)]"
| "mapSet ((k', v') # m) k v = (if k' = k then (k, v) # m else (k', v') # mapSet m k v)"

definition replacementMapOf :: "jsobject \<Rightarrow> (jsnum \<times> jsnum) list" where
  "replacementMapOf paramReplacements =
     foldl (\<lambda>m (original, replaced).
              if replaced \<noteq> [] \<and> \<not> isNaN (Number replaced)
              then mapSet m (Number original) (Number replaced) else m)
       [] paramReplacements"

text \<open>
  \<open>hasCycle\<close> (lines 102 to 116 of \<open>index.tsx\<close>), with the two sets it shares between
  its calls passed in and returned: \<open>(result, visited, stack)\<close>. A call that returns
  \<open>true\<close> leaves the stack as it is.
\<close>

function hasCycle ::
  "(jsnum \<times> jsnum) list \<Rightarrow> jsnum set \<times> jsnum set \<Rightarrow> jsnum \<Rightarrow> bool \<times> jsnum set \<times> jsnum set" where
  "hasCycle replacementMap (visited, stack) start =
     (if start \<in> stack then (True, visited, stack)
      else if start \<in> visited then (False, visited, stack)
      else (case map_of replacementMap start of
              None \<Rightarrow> (False, insert start visited, insert start stack - {start})
            | Some next \<Rightarrow>
                if strictNeq next start then
                  (case hasCycle replacementMap (insert start visited, insert start stack) next of
                     (True, vs) \<Rightarrow> (True, vs)
                   | (False, visited', stack') \<Rightarrow> (False, visited', stack' - {start}))
                else (False, insert start visited, insert start stack - {start})))"
  by pat_completeness auto
termination
proof (relation "measure (\<lambda>(m, (visited, stack), start). card (fst ` set m - visited))")
  fix replacementMap :: "(jsnum \<times> jsnum) list" and visited stack :: "jsnum set" and start x2
  assume "start \<notin> visited" and "map_of replacementMap start = Some x2"
  then have "start \<in> fst ` set replacementMap - visited"
    by (auto dest!: map_of_SomeD intro: rev_image_eqI)
  moreover have "fst ` set replacementMap - insert start visited
      = (fst ` set replacementMap - visited) - {start}"
    by auto
  ultimately have "card (fst ` set replacementMap - insert start visited)
      < card (fst ` set replacementMap - visited)"
    using card_Diff1_less [of "fst ` set replacementMap - visited" start] by simp
  then show "((replacementMap, (insert start visited, insert start stack), x2),
              (replacementMap, (visited, stack), start))
      \<in> measure (\<lambda>(m, (visited, stack), start). card (fst ` set m - visited))"
    by simp
qed simp

declare hasCycle.simps [simp del]

text \<open>
  The loop over the entries of the map that looks for a cycle (lines 119 to 124): it stops
  at the first entry from which \<open>hasCycle\<close> finds one. The result is whether it set
  \<open>hasCircular\<close>.
\<close>

fun detectLoop ::
  "(jsnum \<times> jsnum) list \<Rightarrow> jsnum set \<times> jsnum set \<Rightarrow> (jsnum \<times> jsnum) list \<Rightarrow> bool" where
  "detectLoop replacementMap vs [] = False"
| "detectLoop replacementMap vs ((original, replaced) # entries) =
     (if strictNeq original replaced then
        (case hasCycle replacementMap vs original of
           (True, vs') \<Rightarrow> True
         | (False, vs') \<Rightarrow> detectLoop replacementMap vs' entries)
      else detectLoop replacementMap vs entries)"

definition detectCycle :: "jsobject \<Rightarrow> bool" where
  "detectCycle paramReplacements =
     (let replacementMap = replacementMapOf paramReplacements
      in detectLoop replacementMap ({}, {}) replacementMap)"

definition tempReplacementsOf :: "jsobject \<Rightarrow> (jsnum \<times> jsnum) list" where
  "tempReplacementsOf paramReplacements =
     foldl (\<lambda>m (original, replaced).
              if replaced \<noteq> [] \<and> \<not> isNaN (Number replaced)
                 \<and> strictNeq (Number original) (Number replaced)
              then mapSet m (Number original) (Number replaced) else m)
       [] paramReplacements"

text \<open>
  The \<open>while\<close> loop that follows a chain (lines 150 to 153). \<open>processed\<close> does not change
  while it runs: the members of a chain are added to it only after the loop (line 157).
  \<open>None\<close> is a loop that does not end: the chain grows until the engine stops the script.
\<close>

partial_function (option) walkChain ::
  "(jsnum \<times> jsnum) list \<Rightarrow> jsnum set \<Rightarrow> jsnum list \<Rightarrow> jsnum \<Rightarrow> jsnum list option" where
  "walkChain tempReplacements processed chain current =
     (case map_of tempReplacements current of
        None \<Rightarrow> Some chain
      | Some next \<Rightarrow>
          if current \<notin> processed
          then walkChain tempReplacements processed (chain @ [current]) next
          else Some chain)"

declare walkChain.simps [code]

fun buildChains ::
  "(jsnum \<times> jsnum) list \<Rightarrow> (jsnum \<times> jsnum) list \<Rightarrow> jsnum set \<Rightarrow> jsnum list list
     \<Rightarrow> jsnum list list option" where
  "buildChains tempReplacements [] processed chainList = Some chainList"
| "buildChains tempReplacements ((original, replaced) # entries) processed chainList =
     (if original \<in> processed then buildChains tempReplacements entries processed chainList
      else (case walkChain tempReplacements processed [original] replaced of
              None \<Rightarrow> None
            | Some chain \<Rightarrow>
                buildChains tempReplacements entries (processed \<union> set chain) (chainList @ [chain])))"

text \<open>
  \<open>obj[key] = value\<close>: a key that is present keeps its place. A key that is absent is
  added at the end. The keys written by the fix (lines 162 to 170) are the numerals of the
  members of a chain.
\<close>

definition objSet :: "(string \<times> 'v) list \<Rightarrow> string \<Rightarrow> 'v \<Rightarrow> (string \<times> 'v) list" where
  "objSet obj key v = mapSet obj key v"

definition fixChain :: "jsobject \<Rightarrow> jsnum list \<Rightarrow> jsobject" where
  "fixChain paramReplacements chain =
     (if length chain > 1
      then foldl (\<lambda>obj v. objSet obj (numToString v) (numToString (last chain)))
             paramReplacements (butlast chain)
      else paramReplacements)"

text \<open>
  One parameter group. \<open>hasCircular\<close> is the flag as the earlier groups left it; the
  result is the flag and the group after this one.
\<close>

definition fixGroup :: "bool \<Rightarrow> jsobject \<Rightarrow> (bool \<times> jsobject) option" where
  "fixGroup hasCircular paramReplacements =
     (if hasCircular \<or> detectCycle paramReplacements then
        (case buildChains (tempReplacementsOf paramReplacements)
                (tempReplacementsOf paramReplacements) {} [] of
           None \<Rightarrow> None
         | Some chainList \<Rightarrow> Some (True, foldl fixChain paramReplacements chainList))
      else Some (False, paramReplacements))"

fun fixGroups :: "bool \<Rightarrow> (string \<times> jsobject) list \<Rightarrow> (bool \<times> (string \<times> jsobject) list) option" where
  "fixGroups hasCircular [] = Some (hasCircular, [])"
| "fixGroups hasCircular ((paramKey, paramReplacements) # groups) =
     (case fixGroup hasCircular paramReplacements of
        None \<Rightarrow> None
      | Some (hasCircular', fixed) \<Rightarrow>
          (case fixGroups hasCircular' groups of
             None \<Rightarrow> None
           | Some (hasCircular'', groups') \<Rightarrow> Some (hasCircular'', (paramKey, fixed) # groups')))"

text \<open>The result \<open>{ hasCircular, fixedReplacements }\<close>; \<open>None\<close> when the function does not return.\<close>

definition detectAndFixCircularReplacements ::
  "(string \<times> jsobject) list \<Rightarrow> (bool \<times> (string \<times> jsobject) list) option" where
  "detectAndFixCircularReplacements replacements = fixGroups False replacements"

section \<open>Saving and applying a mapping\<close>

text \<open>The texts the edit dialog shows: none, the notice of an automatic fix, the validation error.\<close>

datatype notice = NoNotice | CycleFixedNotice | InvalidValueNotice

record modalState =
  parameterGroups :: "(string \<times> string list) list"
  groupReplacements :: "(string \<times> jsobject) list"
  isValid :: bool
  errorMessage :: notice
  autoFixed :: bool

text \<open>The effect that runs whenever \<open>groupReplacements\<close> changes.\<close>

definition validateEffect :: "modalState \<Rightarrow> modalState option" where
  "validateEffect ms =
     (case detectAndFixCircularReplacements (groupReplacements ms) of
        None \<Rightarrow> None
      | Some (hasCircular, fixedReplacements) \<Rightarrow>
          Some (if hasCircular
                then ms\<lparr>autoFixed := True, groupReplacements := fixedReplacements,
                        errorMessage := CycleFixedNotice, isValid := True\<rparr>
                else ms\<lparr>autoFixed := False, errorMessage := NoNotice, isValid := True\<rparr>))"

text \<open>
  The check of \<open>handleSave\<close> (lines 210 to 220): the two loops leave \<open>isValid\<close> true
  exactly when no value is empty and none converts to \<open>NaN\<close>.
\<close>

definition allValuesValid :: "(string \<times> jsobject) list \<Rightarrow> bool" where
  "allValuesValid groups =
     list_all (\<lambda>(paramKey, paramReplacements).
        list_all (\<lambda>(originalParam, newValue). \<not> (newValue = [] \<or> isNaN (Number newValue)))
          paramReplacements) groups"

definition numericReplacementsOf :: "jsobject \<Rightarrow> (string \<times> jsnum) list" where
  "numericReplacementsOf paramReplacements =
     foldl (\<lambda>obj (key, v). objSet obj (numToString (Number key)) (Number v)) [] paramReplacements"

text \<open>
  The conversion of the groups to replacements per field. Reading the entries of a group
  that \<open>groupReplacements\<close> does not have throws.
\<close>

fun fieldLoop ::
  "(string \<times> jsobject) list \<Rightarrow> string \<Rightarrow> string list \<Rightarrow> (string \<times> (string \<times> jsnum) list) list
     \<Rightarrow> error + (string \<times> (string \<times> jsnum) list) list" where
  "fieldLoop groups paramKey [] fieldReplacements = Inr fieldReplacements"
| "fieldLoop groups paramKey (fname # fnames) fieldReplacements =
     (case map_of groups paramKey of
        None \<Rightarrow> Inl TypeError
      | Some paramReplacements \<Rightarrow>
          fieldLoop groups paramKey fnames
            (objSet fieldReplacements fname (numericReplacementsOf paramReplacements)))"

fun groupLoop ::
  "(string \<times> jsobject) list \<Rightarrow> (string \<times> string list) list
     \<Rightarrow> (string \<times> (string \<times> jsnum) list) list
     \<Rightarrow> error + (string \<times> (string \<times> jsnum) list) list" where
  "groupLoop groups [] fieldReplacements = Inr fieldReplacements"
| "groupLoop groups ((paramKey, fnames) # rest) fieldReplacements =
     (case fieldLoop groups paramKey fnames fieldReplacements of
        Inl e \<Rightarrow> Inl e
      | Inr fieldReplacements' \<Rightarrow> groupLoop groups rest fieldReplacements')"

text \<open>
  What a click on the save button does besides changing the dialog: nothing, an exception,
  or the call \<open>onSave(recordId, fieldReplacements)\<close>, after which the dialog closes.
\<close>

datatype saveCall =
  NoCall | Threw error | OnSave string "(string \<times> (string \<times> jsnum) list) list"

definition handleSave :: "string \<Rightarrow> modalState \<Rightarrow> modalState \<times> saveCall" where
  "handleSave rid ms =
     (if \<not> allValuesValid (groupReplacements ms)
      then (ms\<lparr>errorMessage := InvalidValueNotice\<rparr>, NoCall)
      else (case groupLoop (groupReplacements ms) (parameterGroups ms) [] of
              Inl e \<Rightarrow> (ms, Threw e)
            | Inr fieldReplacements \<Rightarrow> (ms, OnSave rid fieldReplacements)))"

text \<open>
  \<open>newText.replace(new RegExp(`\\{${originalParam}\\}`, 'g'), `{${newParam}}`)\<close> for a key
  that is a digit string, where the pattern is the literal text of the token: every
  occurrence, left to right, is replaced.
\<close>

function replaceParam :: "string \<Rightarrow> string \<Rightarrow> string \<Rightarrow> string" where
  "replaceParam originalParam replacement [] = []"
| "replaceParam originalParam replacement (c # cs) =
     (if c = CHR ''{'' \<and> take (Suc (length originalParam)) cs = originalParam @ ''}''
      then replacement @ replaceParam originalParam replacement (drop (Suc (length originalParam)) cs)
      else c # replaceParam originalParam replacement cs)"
  by pat_completeness auto
termination
  by (relation "measure (\<lambda>(k, r, txt). length txt)") auto

text \<open>The loop over the entries of one field's replacements.\<close>

definition replaceText :: "(string \<times> jsnum) list \<Rightarrow> string \<Rightarrow> string" where
  "replaceText paramReplacements txt =
     foldl (\<lambda>newText (originalParam, newParam).
              if strictNeq (Number originalParam) newParam
              then replaceParam originalParam (''{'' @ numToString newParam @ ''}'') newText
              else newText)
       txt paramReplacements"

fun updateLoop ::
  "fieldMeta list \<Rightarrow> hostRecord \<Rightarrow> (string \<times> (string \<times> jsnum) list) list
     \<Rightarrow> (string \<times> string) list \<Rightarrow> (string \<times> string) list" where
  "updateLoop fieldMetaList record [] fieldsToUpdate = fieldsToUpdate"
| "updateLoop fieldMetaList record ((fname, paramReplacements) # rest) fieldsToUpdate =
     (case find (\<lambda>meta. metaName meta = fname) fieldMetaList of
        None \<Rightarrow> updateLoop fieldMetaList record rest fieldsToUpdate
      | Some fieldMeta \<Rightarrow>
          (case hostFields record (metaId fieldMeta) of
             Some (TextSeg txt # _) \<Rightarrow>
               updateLoop fieldMetaList record rest
                 (objSet fieldsToUpdate (metaId fieldMeta) (replaceText paramReplacements txt))
           | _ \<Rightarrow> updateLoop fieldMetaList record rest fieldsToUpdate))"

text \<open>The host's \<open>setRecord\<close>: the fields named are overwritten with text cells.\<close>

definition setRecord :: "hostRecord \<Rightarrow> (string \<times> string) list \<Rightarrow> hostRecord" where
  "setRecord record fieldsToUpdate =
     HostRecord (hostRecordId record)
       (\<lambda>fid. case map_of fieldsToUpdate fid of
                 Some txt \<Rightarrow> Some [TextSeg txt]
               | None \<Rightarrow> hostFields record fid)"

text \<open>
  \<open>replaceParameters\<close> (lines 806 to 867) on the record it fetches, with the host answering
  every call: the record as the host holds it afterwards. The comparison run that follows
  the write is \<open>compareAllRecords\<close>.
\<close>

definition replaceParameters ::
  "fieldMeta list \<Rightarrow> hostRecord \<Rightarrow> (string \<times> (string \<times> jsnum) list) list \<Rightarrow> hostRecord" where
  "replaceParameters fieldMetaList record replacements =
     (let fieldsToUpdate = updateLoop fieldMetaList record replacements []
      in if fieldsToUpdate \<noteq> [] then setRecord record fieldsToUpdate else record)"

text \<open>A click on the save button, and the record afterwards.\<close>

definition saveClick ::
  "fieldMeta list \<Rightarrow> hostRecord \<Rightarrow> modalState \<Rightarrow> modalState \<times> hostRecord" where
  "saveClick fieldMetaList record ms =
     (case handleSave (hostRecordId record) ms of
        (ms', OnSave rid fieldReplacements) \<Rightarrow>
          (ms', replaceParameters fieldMetaList record fieldReplacements)
      | (ms', _) \<Rightarrow> (ms', record))"

section \<open>Notions of the specification\<close>

subsection \<open>Tokens of a text\<close>

text \<open>
  The integers inside the \<open>{digits}\<close> patterns of a text, in the order of their positions:
  a pattern occurs at a position when an opening brace there is followed by one or more
  digits and a closing brace.
\<close>

definition tokenAt :: "string \<Rightarrow> nat list" where
  "tokenAt s =
     (case s of
        [] \<Rightarrow> []
      | c # cs \<Rightarrow>
          if c = CHR ''{'' \<and> takeWhile isDigit cs \<noteq> []
             \<and> take 1 (dropWhile isDigit cs) = ''}''
          then [decimalValue (takeWhile isDigit cs)] else [])"

fun occurrences :: "string \<Rightarrow> nat list" where
  "occurrences [] = []"
| "occurrences (c # cs) = tokenAt (c # cs) @ occurrences cs"

text \<open>A text built from tokens with text without opening braces between them.\<close>

fun renderTokens :: "(string \<times> nat) list \<Rightarrow> string \<Rightarrow> string" where
  "renderTokens [] tail = tail"
| "renderTokens ((sep, n) # parts) tail =
     sep @ ''{'' @ showNat n @ ''}'' @ renderTokens parts tail"

subsection \<open>Inconsistent records and what a run reports\<close>

text \<open>
  The tokens of a field of a record: the integers of the patterns of its text, and none
  when its cell holds no text.
\<close>

definition tokensOf :: "hostRecord \<Rightarrow> string \<Rightarrow> nat list" where
  "tokensOf record fid =
     (case hostFields record fid of
        Some (TextSeg str # _) \<Rightarrow> occurrences str
      | _ \<Rightarrow> [])"

text \<open>
  The fields of the table in view order: the fields that the view shows, in the order of
  the view, and after them the fields that it does not show.
\<close>

definition viewOrder :: "fieldMeta list \<Rightarrow> string list \<Rightarrow> string list" where
  "viewOrder fieldMetaList fieldList =
     filter (\<lambda>f. f \<in> set fieldList) (map metaId fieldMetaList)
     @ filter (\<lambda>f. f \<notin> metaId ` set fieldMetaList) fieldList"

text \<open>The token-bearing fields of a record, in view order. The first is the baseline.\<close>

definition tokenFields :: "hostRecord \<Rightarrow> string list \<Rightarrow> fieldMeta list \<Rightarrow> string list" where
  "tokenFields record fieldList fieldMetaList =
     filter (\<lambda>f. tokensOf record f \<noteq> []) (viewOrder fieldMetaList fieldList)"

text \<open>
  A record is inconsistent when it has at least two token-bearing fields and some selected
  field after the baseline has a multiset of tokens other than the baseline's.
\<close>

definition inconsistentRecord ::
  "string list \<Rightarrow> string list \<Rightarrow> fieldMeta list \<Rightarrow> hostRecord \<Rightarrow> bool" where
  "inconsistentRecord selectedFields fieldList fieldMetaList record =
     (case tokenFields record fieldList fieldMetaList of
        [] \<Rightarrow> False
      | baseline # others \<Rightarrow>
          others \<noteq> [] \<and>
          (\<exists>f\<in>set others. f \<in> set selectedFields
                \<and> mset (tokensOf record f) \<noteq> mset (tokensOf record baseline)))"

text \<open>The name under which a field is reported: its name in the view, else its id.\<close>

definition displayName :: "fieldMeta list \<Rightarrow> string \<Rightarrow> string" where
  "displayName fieldMetaList fid =
     (case map_of fieldMetaList fid of None \<Rightarrow> fid | Some name \<Rightarrow> name)"

text \<open>
  What is reported for a record: its id and, for every selected token-bearing field in
  view order, the name of the field with all its tokens in ascending order.
\<close>

definition tokenLists ::
  "string list \<Rightarrow> string list \<Rightarrow> fieldMeta list \<Rightarrow> hostRecord \<Rightarrow> (string \<times> enat list) list" where
  "tokenLists selectedFields fieldList fieldMetaList record =
     map (\<lambda>f. (displayName fieldMetaList f, map enat (sort (tokensOf record f))))
       (filter (\<lambda>f. f \<in> set selectedFields) (tokenFields record fieldList fieldMetaList))"

definition reportedRecords ::
  "string list \<Rightarrow> string list \<Rightarrow> fieldMeta list \<Rightarrow> hostRecord list
     \<Rightarrow> (string \<times> (string \<times> enat list) list) list" where
  "reportedRecords selectedFields fieldList fieldMetaList records =
     map (\<lambda>record. (hostRecordId record, tokenLists selectedFields fieldList fieldMetaList record))
       (filter (inconsistentRecord selectedFields fieldList fieldMetaList) records)"

text \<open>
  The host holds a table with these fields, this view and these records, and answers
  every call of a run: the records come in pages, each page but the last with a
  continuation token.
\<close>

definition servesTable :: "host \<Rightarrow> string list \<Rightarrow> fieldMeta list \<Rightarrow> hostRecord list \<Rightarrow> bool" where
  "servesTable h fieldList fieldMetaList records =
     (getActiveTable h = Inr () \<and> getActiveView h = Inr () \<and> getFieldList h = Inr fieldList
      \<and> getFieldMetaList h = Inr fieldMetaList
      \<and> (\<exists>pages lastPage token rest.
            getRecords h = map Inr pages @ Inr (lastPage, token) # rest
            \<and> list_all (\<lambda>pg. truthy (snd pg)) pages \<and> \<not> truthy token
            \<and> records = concat (map fst pages) @ lastPage))"

text \<open>
  The fields of a table are distinct, and so are the fields of a view, which has at least
  the index field and fewer fields than \<open>Number.MAX_SAFE_INTEGER\<close>.
\<close>

definition wellFormedTable :: "string list \<Rightarrow> fieldMeta list \<Rightarrow> bool" where
  "wellFormedTable fieldList fieldMetaList =
     (distinct fieldList \<and> distinct (map metaId fieldMetaList) \<and> fieldMetaList \<noteq> []
      \<and> length fieldMetaList \<le> MAX_SAFE_INTEGER)"

text \<open>Every token of the records is at most \<open>2^53\<close>, so that it is its own number value.\<close>

definition exactTokens :: "string list \<Rightarrow> hostRecord list \<Rightarrow> bool" where
  "exactTokens fieldList records =
     (\<forall>record\<in>set records. \<forall>f\<in>set fieldList. \<forall>n\<in>set (tokensOf record f). n \<le> 2 ^ 53)"

subsection \<open>The comparison loop in closed form\<close>

text \<open>
  The test that the loop makes on the entries extracted from a record, and what it adds
  to the result when the test holds.
\<close>

definition inconsistent :: "string list \<Rightarrow> ParameterInfo list \<Rightarrow> bool" where
  "inconsistent selectedFields params =
     (case params of
        [] \<Rightarrow> False
      | base # others \<Rightarrow>
          others \<noteq> [] \<and>
          (\<exists>p\<in>set others. fieldId p \<in> set selectedFields
                \<and> mset (parameters p) \<noteq> mset (parameters base)))"

definition reportOf ::
  "string list \<Rightarrow> fieldMeta \<Rightarrow> hostRecord \<Rightarrow> ParameterInfo list \<Rightarrow> RecordComparison" where
  "reportOf selectedFields indexFieldMeta record params =
     \<lparr>recordId = hostRecordId record,
      recordName = recordNameOf record indexFieldMeta,
      differences = map (\<lambda>p. (fieldName p, parameters p))
                      (filter (\<lambda>p. fieldId p \<in> set selectedFields) params)\<rparr>"

definition expectedResult ::
  "string list \<Rightarrow> string list \<Rightarrow> fieldMeta list \<Rightarrow> fieldMeta \<Rightarrow> hostRecord list
     \<Rightarrow> RecordComparison list" where
  "expectedResult selectedFields fieldList fieldMetaList indexFieldMeta records =
     List.map_filter
       (\<lambda>record.
          if inconsistent selectedFields (extractParametersFromRecord record fieldList fieldMetaList)
          then Some (reportOf selectedFields indexFieldMeta record
                       (extractParametersFromRecord record fieldList fieldMetaList))
          else None)
       records"

text \<open>
  The position that the code gives a field, and the entry that it makes for a field with
  tokens.
\<close>

definition viewIndex :: "fieldMeta list \<Rightarrow> string \<Rightarrow> nat" where
  "viewIndex fieldMetaList fid =
     (if fid \<in> metaId ` set fieldMetaList then indexOfMeta fieldMetaList fid
      else MAX_SAFE_INTEGER)"

definition entryOf :: "hostRecord \<Rightarrow> fieldMeta list \<Rightarrow> string \<Rightarrow> ParameterInfo" where
  "entryOf record fieldMetaList fid =
     \<lparr>fieldName = displayName fieldMetaList fid, fieldId = fid,
      parameters = sort (map toDouble (tokensOf record fid)),
      order = viewIndex fieldMetaList fid\<rparr>"

subsection \<open>Runs of the host\<close>

text \<open>The host answers every call of a run: with these fields, metas and records.\<close>

definition hostAnswers :: "host \<Rightarrow> string list \<Rightarrow> fieldMeta list \<Rightarrow> hostRecord list \<Rightarrow> bool" where
  "hostAnswers h fieldList fieldMetaList records =
     (getActiveTable h = Inr () \<and> getActiveView h = Inr () \<and> getFieldList h = Inr fieldList
      \<and> getFieldMetaList h = Inr fieldMetaList
      \<and> fetchRecords (getRecords h) [] = Some (Inr records))"

text \<open>
  The paging meets the failure \<open>e\<close>: some call fails with it, and every page before had a
  continuation token. The run meets \<open>e\<close>: it is the failure of the first call that fails.
\<close>

definition pagesFail :: "(error + page) list \<Rightarrow> error \<Rightarrow> bool" where
  "pagesFail answers e =
     (\<exists>pages rest. answers = map Inr pages @ Inl e # rest \<and> list_all (\<lambda>pg. truthy (snd pg)) pages)"

definition hostFails :: "host \<Rightarrow> error \<Rightarrow> bool" where
  "hostFails h e =
     (getActiveTable h = Inl e
      \<or> getActiveTable h = Inr () \<and> getActiveView h = Inl e
      \<or> getActiveTable h = Inr () \<and> getActiveView h = Inr () \<and> getFieldList h = Inl e
      \<or> getActiveTable h = Inr () \<and> getActiveView h = Inr () \<and> \<not> isl (getFieldList h)
          \<and> getFieldMetaList h = Inl e
      \<or> getActiveTable h = Inr () \<and> getActiveView h = Inr () \<and> \<not> isl (getFieldList h)
          \<and> \<not> isl (getFieldMetaList h) \<and> pagesFail (getRecords h) e)"

subsection \<open>The graph of a mapping\<close>

text \<open>A value the resolver takes into account: not empty, and a number.\<close>

definition validValue :: "string \<Rightarrow> bool" where
  "validValue replaced = (replaced \<noteq> [] \<and> \<not> isNaN (Number replaced))"

text \<open>
  The graph of a mapping: an edge from \<open>x\<close> to \<open>y\<close> when an entry with a valid number as
  its value sends \<open>x\<close> to \<open>y\<close> and \<open>x \<noteq> y\<close>.
\<close>

definition mappingEdges :: "jsobject \<Rightarrow> (jsnum \<times> jsnum) set" where
  "mappingEdges obj =
     {(x, y). \<exists>(k, v)\<in>set obj. validValue v \<and> x = Number k \<and> y = Number v \<and> x \<noteq> y}"

text \<open>
  An object has one entry for a number: no two of its keys are the same number. The
  objects of the dialog, whose keys are the numerals of the tokens of a group, are of this
  kind.
\<close>

definition wellFormed :: "jsobject \<Rightarrow> bool" where
  "wellFormed obj = distinct (map (\<lambda>(k, v). Number k) obj)"

text \<open>
  The object of a parameter group: one entry for each token of the group, its key the
  numeral of the token.
\<close>

definition groupObject :: "(nat \<times> string) list \<Rightarrow> jsobject" where
  "groupObject entries = map (\<lambda>(n, v). (showNat n, v)) entries"

text \<open>The integer a number of the form \<open>m * 10^e\<close> with \<open>0 \<le> e\<close> stands for.\<close>

definition decValue :: "jsnum \<Rightarrow> int" where
  "decValue x = (case x of Dec m e \<Rightarrow> m * 10 ^ nat e | _ \<Rightarrow> 0)"

text \<open>
  The edges \<open>hasCycle\<close> follows in a \<open>Map\<close>, and the nodes a traversal has left: a set that
  is closed under the edges and has no node on a cycle.
\<close>

definition edges :: "(jsnum \<times> jsnum) list \<Rightarrow> (jsnum \<times> jsnum) set" where
  "edges m = {(x, y). map_of m x = Some y \<and> strictNeq y x}"

definition finished :: "(jsnum \<times> jsnum) list \<Rightarrow> jsnum set \<Rightarrow> bool" where
  "finished m F = ((\<forall>x\<in>F. \<forall>y. (x, y) \<in> edges m \<longrightarrow> y \<in> F) \<and> (\<forall>x\<in>F. (x, x) \<notin> (edges m)\<^sup>+))"

text \<open>The links the chain loop follows, and the numbers that lie on a cycle of them.\<close>

definition links :: "(jsnum \<times> jsnum) list \<Rightarrow> (jsnum \<times> jsnum) set" where
  "links m = {(x, y). map_of m x = Some y}"

definition onCycle :: "(jsnum \<times> jsnum) list \<Rightarrow> jsnum set" where
  "onCycle m = {a. (a, a) \<in> (links m)\<^sup>+}"

subsection \<open>Validation\<close>

text \<open>A group has a value that is empty or does not convert to a number.\<close>

definition hasInvalidValue :: "(string \<times> jsobject) list \<Rightarrow> bool" where
  "hasInvalidValue groups =
     (\<exists>g\<in>set groups. \<exists>entry\<in>set (snd g). snd entry = [] \<or> Number (snd entry) = NaN)"

text \<open>Every value of the replacements is a number.\<close>

definition numbersOnly :: "(string \<times> (string \<times> jsnum) list) list \<Rightarrow> bool" where
  "numbersOnly fieldReplacements =
     (\<forall>f\<in>set fieldReplacements. \<forall>entry\<in>set (snd f). snd entry \<noteq> NaN)"

definition isInteger :: "jsnum \<Rightarrow> bool" where
  "isInteger x = (case x of Dec m e \<Rightarrow> m = 0 \<or> 0 \<le> e | _ \<Rightarrow> False)"

subsection \<open>Substitution of tokens\<close>

text \<open>
  The substitution of tokens, as the specification has it: the text is read token by
  token, and each token \<open>{digits}\<close> is rewritten by \<open>f\<close> applied to its digits; every
  other character stays.
\<close>

function mapTokens :: "(string \<Rightarrow> string) \<Rightarrow> string \<Rightarrow> string" where
  "mapTokens f [] = []"
| "mapTokens f (c # cs) =
     (if c = CHR ''{'' \<and> takeWhile isDigit cs \<noteq> [] then
        (case dropWhile isDigit cs of
           [] \<Rightarrow> c # mapTokens f cs
         | d # rest \<Rightarrow>
             if d = CHR ''}'' then f (takeWhile isDigit cs) @ mapTokens f rest
             else c # mapTokens f cs)
      else c # mapTokens f cs)"
  by pat_completeness auto
termination
proof (relation "measure (\<lambda>(f, s). length s)")
  fix f :: "string \<Rightarrow> string" and c :: char and cs d rest
  assume "dropWhile isDigit cs = d # rest"
  then have "length (d # rest) \<le> length cs"
    using length_dropWhile_le [of isDigit cs] by simp
  then show "((f, rest), (f, c # cs)) \<in> measure (\<lambda>(f, s). length s)" by simp
qed auto

declare mapTokens.simps(2) [simp del]

text \<open>An entry changes its token when \<open>original != newValue\<close>.\<close>

definition changed :: "string \<times> jsnum \<Rightarrow> bool" where
  "changed entry = strictNeq (Number (fst entry)) (snd entry)"

definition newToken :: "jsnum \<Rightarrow> string" where
  "newToken v = ''{'' @ numToString v @ ''}''"

text \<open>
  What a mapping makes of the token with the digits \<open>ds\<close>: the new token of the first
  entry with exactly these digits as its key that changes its token, else the token
  itself.
\<close>

definition tokenRule :: "(string \<times> jsnum) list \<Rightarrow> string \<Rightarrow> string" where
  "tokenRule m ds =
     (case find (\<lambda>entry. fst entry = ds \<and> changed entry) m of
        None \<Rightarrow> ''{'' @ ds @ ''}''
      | Some entry \<Rightarrow> newToken (snd entry))"

definition substituteTokens :: "(string \<times> jsnum) list \<Rightarrow> string \<Rightarrow> string" where
  "substituteTokens m = mapTokens (tokenRule m)"

text \<open>
  A mapping is resolved when no new value of an entry that changes its token is itself the
  key of an entry that changes its token: applying the mapping twice is applying it once.
  Its keys are numerals.
\<close>

definition resolved :: "(string \<times> jsnum) list \<Rightarrow> bool" where
  "resolved m =
     (\<forall>entry\<in>set m. changed entry \<longrightarrow>
        \<not> (\<exists>later\<in>set m. fst later = numToString (snd entry) \<and> changed later))"

definition numeralKeys :: "(string \<times> jsnum) list \<Rightarrow> bool" where
  "numeralKeys m = (\<forall>entry\<in>set m. fst entry \<noteq> [] \<and> list_all isDigit (fst entry))"

text \<open>A character other than a brace.\<close>

definition plain :: "char \<Rightarrow> bool" where
  "plain c = (c \<noteq> CHR ''{'' \<and> c \<noteq> CHR ''}'')"

text \<open>How a text after an opening brace reads: the digits of a token and a rest, or no token.\<close>

definition tokenHead :: "string \<Rightarrow> (string \<times> string) option" where
  "tokenHead cs =
     (if takeWhile isDigit cs \<noteq> [] \<and> take 1 (dropWhile isDigit cs) = ''}''
      then Some (takeWhile isDigit cs, drop 1 (dropWhile isDigit cs)) else None)"

text \<open>A rewriting of tokens that turns every token into a braced text without inner braces.\<close>

definition braced :: "(string \<Rightarrow> string) \<Rightarrow> bool" where
  "braced f = (\<forall>ds. ds \<noteq> [] \<and> list_all isDigit ds \<longrightarrow>
                 (\<exists>x. f ds = CHR ''{'' # x @ ''}'' \<and> list_all plain x))"

subsection \<open>Example data\<close>

text \<open>
  A table with an index field and the fields \<open>A\<close> and \<open>B\<close>; its three records; a host that
  returns them in one page, and one that fails on the second page.
\<close>

definition exampleMetas :: "fieldMeta list" where
  "exampleMetas = [(''idx'', ''Name''), (''fA'', ''A''), (''fB'', ''B'')]"

definition exampleRecord :: "string \<Rightarrow> string \<Rightarrow> string \<Rightarrow> hostRecord" where
  "exampleRecord rid a b =
     HostRecord rid (map_of [(''idx'', [TextSeg rid]), (''fA'', [TextSeg a]), (''fB'', [TextSeg b])])"

definition exampleRecords :: "hostRecord list" where
  "exampleRecords =
     [exampleRecord ''r1'' ''plain'' ''{1}'',
      exampleRecord ''r2'' ''{1}{2}'' ''{2}{1}'',
      exampleRecord ''r3'' ''{1}{2}'' ''{1}{3}'']"

definition exampleHost :: host where
  "exampleHost =
     \<lparr>getActiveTable = Inr (), getActiveView = Inr (),
      getFieldList = Inr [''idx'', ''fA'', ''fB''], getFieldMetaList = Inr exampleMetas,
      getRecords = [Inr (exampleRecords, None)]\<rparr>"

definition failingHost :: host where
  "failingHost =
     \<lparr>getActiveTable = Inr (), getActiveView = Inr (),
      getFieldList = Inr [''idx'', ''fA'', ''fB''], getFieldMetaList = Inr exampleMetas,
      getRecords = [Inr (exampleRecords, Some ''page2''), Inl (HostFailure ''rate limit'')]\<rparr>"

definition exampleState :: appState where
  "exampleState =
     \<lparr>comparisons = [\<lparr>recordId = ''r0'', recordName = DefaultLabel ''r0'', differences = []\<rparr>],
      isComparing = True, floatingMessage = NoMessage\<rparr>"

text \<open>
  A table whose field list is not in view order and has a field \<open>fH\<close> that the view does
  not show; its three records, which the host returns in two pages.
\<close>

definition pagedRecord :: "string \<Rightarrow> string \<Rightarrow> string \<Rightarrow> string \<Rightarrow> hostRecord" where
  "pagedRecord rid a b hid =
     HostRecord rid (map_of [(''idx'', [TextSeg rid]), (''fA'', [TextSeg a]), (''fB'', [TextSeg b]),
                             (''fH'', [TextSeg hid])])"

definition pagedFields :: "string list" where
  "pagedFields = [''fH'', ''fB'', ''fA'', ''idx'']"

definition pagedRecords :: "hostRecord list" where
  "pagedRecords =
     [pagedRecord ''q1'' ''{1}'' ''{2}'' ''none'',
      pagedRecord ''q2'' ''{2}{1}'' ''{1}{2}'' ''{1}{2}'',
      pagedRecord ''q3'' ''{7}'' ''{7}'' ''{8}'']"

definition pagedHost :: host where
  "pagedHost =
     \<lparr>getActiveTable = Inr (), getActiveView = Inr (),
      getFieldList = Inr pagedFields, getFieldMetaList = Inr exampleMetas,
      getRecords =
        [Inr ([pagedRecord ''q1'' ''{1}'' ''{2}'' ''none'',
               pagedRecord ''q2'' ''{2}{1}'' ''{1}{2}'' ''{1}{2}''], Some ''p2''),
         Inr ([pagedRecord ''q3'' ''{7}'' ''{7}'' ''{8}''], None)]\<rparr>"

text \<open>A record whose two fields hold different tokens with the same number value.\<close>

definition largeRecord :: hostRecord where
  "largeRecord = exampleRecord ''big'' ''{9007199254740993}'' ''{9007199254740992}''"

definition largeHost :: host where
  "largeHost =
     \<lparr>getActiveTable = Inr (), getActiveView = Inr (),
      getFieldList = Inr [''idx'', ''fA'', ''fB''], getFieldMetaList = Inr exampleMetas,
      getRecords = [Inr ([largeRecord], None)]\<rparr>"

text \<open>A mapping that renames token 1 to 2 and leaves the tokens 2 and 12.\<close>

definition exampleMapping :: "(string \<times> jsnum) list" where
  "exampleMapping = [(''1'', Dec 2 0), (''2'', Dec 2 0), (''12'', Dec 12 0)]"

text \<open>The edit dialog of a record with one group, its one token 1 given the value \<open>v\<close>.\<close>

definition exampleModal :: "string \<Rightarrow> modalState" where
  "exampleModal v =
     \<lparr>parameterGroups = [(''1'', [''A''])], groupReplacements = [(''1'', [(''1'', v)])],
      isValid = True, errorMessage = NoNotice, autoFixed = False\<rparr>"

section \<open>Evaluation\<close>

lemmas Number_simps = Number_def trimWs_def isStrWhiteSpace_def nonDecimal_def
  unsignedDecimal_def fractionPart_def isDigit_def exponentPart_def signedDigits_def decimalValue_def digitVal_def
  normDec.simps negate_def radixDigits_def radixVal_def ofNat_def

lemmas toString_simps = numToString_def showPositive_def showNat.simps digitChar_def

lemma bitLength_le: "n < 2 ^ k \<Longrightarrow> bitLength n \<le> k"
proof (induction k arbitrary: n)
  case 0
  then show ?case by (simp add: bitLength.simps)
next
  case (Suc k)
  then have "n div 2 < 2 ^ k" by auto
  then have "bitLength (n div 2) \<le> k" by (rule Suc.IH)
  then show ?case by (subst bitLength.simps) simp
qed

lemma bitLength_pow: "bitLength (2 ^ k) = Suc k"
proof (induction k)
  case 0
  then show ?case by (simp add: bitLength.simps [of "Suc 0"] bitLength.simps [of 0])
next
  case (Suc k)
  have "bitLength (2 ^ Suc k) = Suc (bitLength (2 ^ Suc k div 2))"
    by (subst bitLength.simps) simp
  then show ?case using Suc by simp
qed

text \<open>The integers up to \<open>2^53\<close> are their own number values.\<close>

lemma toDouble_exact:
  assumes "n \<le> 2 ^ 53"
  shows "toDouble n = enat n"
proof (cases "n = 2 ^ 53")
  case True
  have "bitLength n = 54" unfolding True using bitLength_pow [of 53] by simp
  then show ?thesis
    unfolding toDouble_def by (simp add: True Let_def)
next
  case False
  with assms have "n < 2 ^ 53" by simp
  then have "bitLength n \<le> 53" by (rule bitLength_le)
  then show ?thesis by (simp add: toDouble_def)
qed

lemma bitLength_greater: "2 ^ k \<le> n \<Longrightarrow> k < bitLength n"
proof (induction k arbitrary: n)
  case 0
  then show ?case by (subst bitLength.simps) simp
next
  case (Suc k)
  then have "2 ^ k \<le> n div 2" by simp
  then have "k < bitLength (n div 2)" by (rule Suc.IH)
  moreover have "n \<noteq> 0"
  proof
    assume "n = 0"
    with Suc.prems show False by simp
  qed
  ultimately show ?case by (subst bitLength.simps) simp
qed

text \<open>An integer from \<open>2^1024\<close> on has the number value \<open>Infinity\<close>.\<close>

lemma toDouble_infinite:
  assumes "2 ^ 1024 \<le> n"
  shows "toDouble n = \<infinity>"
proof -
  define b where "b = bitLength n"
  define e where "e = b - 53"
  have b: "1024 < b" unfolding b_def using assms by (rule bitLength_greater)
  have "\<not> n < 2 ^ (b - 1)"
  proof
    assume "n < 2 ^ (b - 1)"
    then have "bitLength n \<le> b - 1" by (rule bitLength_le)
    with b show False by (simp add: b_def)
  qed
  then have low: "2 ^ (b - 1) \<le> n" by simp
  have "b - 1 = 52 + e" using b by (simp add: e_def)
  then have "(2::nat) ^ (b - 1) = 2 ^ (52 + e)" by (rule arg_cong)
  also have "\<dots> = 2 ^ 52 * 2 ^ e" by (rule power_add)
  finally have split: "(2::nat) ^ (b - 1) = 2 ^ 52 * 2 ^ e" .
  have "2 ^ 52 * 2 ^ e div 2 ^ e \<le> n div 2 ^ e"
    using low unfolding split by (rule div_le_mono)
  then have q: "2 ^ 52 \<le> n div 2 ^ e" by simp
  have "(2::nat) ^ 1024 \<le> 2 ^ (b - 1)"
    using b by (intro power_increasing) simp_all
  also have "\<dots> \<le> (n div 2 ^ e) * 2 ^ e"
    unfolding split using q by simp
  finally have r: "2 ^ 1024 \<le> (n div 2 ^ e) * 2 ^ e" .
  then have r': "2 ^ 1024 \<le> (n div 2 ^ e + 1) * 2 ^ e"
    by (simp add: add_mult_distrib)
  have "\<not> bitLength n \<le> 53" using b by (simp add: b_def)
  then show ?thesis
    using r r' unfolding toDouble_def Let_def e_def b_def by simp
qed

lemma map_toDouble_exact:
  assumes "\<forall>n\<in>set ns. n \<le> 2 ^ 53"
  shows "map toDouble ns = map enat ns"
  using assms by (induction ns) (simp_all add: toDouble_exact)

lemma sort_map_enat: "sort (map enat ns) = map enat (sort ns)"
proof (rule properties_for_sort)
  show "mset (map enat (sort ns)) = mset (map enat ns)" by simp
  have "sorted (sort ns)" by simp
  then show "sorted (map enat (sort ns))"
    by (induction "sort ns" arbitrary: ns) (auto simp: sorted_map)
qed

lemma parseInt_small: "decimalValue s \<le> 2 ^ 53 \<Longrightarrow> parseInt s = enat (decimalValue s)"
  by (simp add: parseInt_def toDouble_exact)

lemma extract_example: "extractParameters ''{3}{1}{2}'' = Some [1, 2, 3]"
  by (simp add: extractParameters_def isDigit_def stripBraces_def parseInt_small
      decimalValue_def digitVal_def numeral_eq_enat one_enat_def)

section \<open>Digits and numerals\<close>

lemma isDigit_not_brace: "isDigit c \<Longrightarrow> c \<noteq> CHR ''{'' \<and> c \<noteq> CHR ''}''"
  by (auto simp: isDigit_def)

lemma isDigit_digitChar: "n < 10 \<Longrightarrow> isDigit (digitChar n)"
proof -
  have "list_all (\<lambda>d. isDigit (digitChar d)) [0..<10]"
    by (simp add: upt_rec digitChar_def isDigit_def)
  moreover assume "n < 10"
  ultimately show ?thesis by (simp add: list_all_iff)
qed

lemma showNat_digits: "list_all isDigit (showNat n)"
proof (induction n rule: showNat.induct)
  case (1 n)
  show ?case
  proof (cases "n < 10")
    case True
    then show ?thesis by (simp add: showNat.simps [of n] isDigit_digitChar)
  next
    case False
    with 1 have "list_all isDigit (showNat (n div 10))" by simp
    moreover have "isDigit (digitChar (n mod 10))" by (simp add: isDigit_digitChar)
    ultimately show ?thesis using False by (simp add: showNat.simps [of n])
  qed
qed

lemma digits_no_brace: "list_all isDigit ds \<Longrightarrow> CHR ''{'' \<notin> set ds \<and> CHR ''}'' \<notin> set ds"
  using isDigit_not_brace by (auto simp: list_all_iff)

lemma digitVal_digitChar: "d < 10 \<Longrightarrow> digitVal (digitChar d) = d"
proof -
  have "list_all (\<lambda>d. digitVal (digitChar d) = d) [0..<10]"
    by (simp add: upt_rec digitChar_def digitVal_def)
  moreover assume "d < 10"
  ultimately show ?thesis by (simp add: list_all_iff)
qed

lemma showNat_nonempty: "showNat n \<noteq> []"
  by (simp add: showNat.simps [of n])

lemma takeWhile_digits: "list_all isDigit s \<Longrightarrow> takeWhile isDigit s = s"
  by (simp add: list_all_iff takeWhile_eq_all_conv)

lemma dropWhile_digits: "list_all isDigit s \<Longrightarrow> dropWhile isDigit s = []"
  by (simp add: list_all_iff)

lemma decimalValue_digits_snoc:
  assumes "list_all isDigit s" and "isDigit c"
  shows "decimalValue (s @ [c]) = 10 * decimalValue s + digitVal c"
proof -
  have "list_all isDigit (s @ [c])" using assms by simp
  then show ?thesis
    using assms(1) by (simp add: decimalValue_def takeWhile_digits)
qed

lemma decimalValue_showNat: "decimalValue (showNat n) = n"
proof (induction n rule: showNat.induct)
  case (1 n)
  show ?case
  proof (cases "n < 10")
    case True
    then have "decimalValue (showNat n) = digitVal (digitChar n)"
      by (simp add: showNat.simps [of n] decimalValue_def isDigit_digitChar)
    with True show ?thesis by (simp add: digitVal_digitChar)
  next
    case False
    have "decimalValue (showNat n) = decimalValue (showNat (n div 10) @ [digitChar (n mod 10)])"
      using False by (simp add: showNat.simps [of n])
    also have "\<dots> = 10 * decimalValue (showNat (n div 10)) + digitVal (digitChar (n mod 10))"
      by (intro decimalValue_digits_snoc showNat_digits isDigit_digitChar) simp
    also have "\<dots> = 10 * (n div 10) + n mod 10"
      using 1 False by (simp add: digitVal_digitChar)
    finally show ?thesis by simp
  qed
qed

lemma digit_not_space: "isDigit c \<Longrightarrow> \<not> isStrWhiteSpace c"
  by (auto simp: isDigit_def isStrWhiteSpace_def)

lemma digit_not_prefix: "isDigit c \<Longrightarrow> c \<notin> set ''xXoObB''"
  by (auto simp: isDigit_def)

lemma digit_not_sign: "isDigit c \<Longrightarrow> c \<noteq> CHR ''+'' \<and> c \<noteq> CHR ''-'' \<and> c \<noteq> CHR ''I''"
  by (auto simp: isDigit_def)

lemma trimWs_digits:
  assumes "list_all isDigit s"
  shows "trimWs s = s"
proof (cases s)
  case Nil
  then show ?thesis by (simp add: trimWs_def)
next
  case (Cons c cs)
  have "\<not> isStrWhiteSpace (hd s)"
    using assms Cons digit_not_space by simp
  then have front: "dropWhile isStrWhiteSpace s = s"
    by (simp add: dropWhile_eq_self_iff)
  have "last s \<in> set s" using Cons by simp
  then have "\<not> isStrWhiteSpace (last s)"
    using assms digit_not_space by (auto simp: list_all_iff)
  moreover have "hd (rev s) = last s"
    by (rule hd_rev)
  ultimately have "\<not> isStrWhiteSpace (hd (rev s))"
    by simp
  then have "dropWhile isStrWhiteSpace (rev s) = rev s"
    by (simp add: dropWhile_eq_self_iff)
  with front show ?thesis by (simp add: trimWs_def)
qed

lemma nonDecimal_digits:
  assumes "list_all isDigit s"
  shows "nonDecimal s = None"
proof (cases s)
  case Nil
  then show ?thesis by (simp add: nonDecimal_def)
next
  case (Cons z r)
  show ?thesis
  proof (cases r)
    case Nil
    with Cons show ?thesis by (simp add: nonDecimal_def)
  next
    case (Cons p ds)
    with assms \<open>s = z # r\<close> have "isDigit p" by simp
    then have "p \<notin> set ''xXoObB''" by (rule digit_not_prefix)
    with Cons \<open>s = z # r\<close> show ?thesis by (simp add: nonDecimal_def)
  qed
qed

lemma unsignedDecimal_digits:
  assumes "s \<noteq> []" and "list_all isDigit s"
  shows "unsignedDecimal s = ofNat (decimalValue s)"
proof -
  have "\<not> list_all isDigit ''Infinity''"
    by (simp add: isDigit_def)
  with assms(2) have ni: "s \<noteq> ''Infinity''" by blast
  have tw: "takeWhile isDigit s = s" and dw: "dropWhile isDigit s = []"
    using assms(2) by (simp_all add: takeWhile_digits dropWhile_digits)
  show ?thesis
    unfolding unsignedDecimal_def Let_def tw dw
    using ni assms(1) by (simp add: fractionPart_def exponentPart_def ofNat_def)
qed

lemma Number_digits:
  assumes "s \<noteq> []" and "list_all isDigit s"
  shows "Number s = ofNat (decimalValue s)"
proof -
  from assms obtain c cs where s: "s = c # cs" by (cases s) auto
  with assms(2) have "isDigit c" by simp
  then have sign: "c \<noteq> CHR ''+''" "c \<noteq> CHR ''-''"
    using digit_not_sign by simp_all
  have "trimWs s = c # cs"
    using assms(2) s by (simp add: trimWs_digits)
  moreover have "nonDecimal (c # cs) = None"
    using assms(2) s nonDecimal_digits by simp
  moreover have "unsignedDecimal (c # cs) = ofNat (decimalValue s)"
    using assms s unsignedDecimal_digits by simp
  ultimately show ?thesis
    using sign by (simp add: Number_def)
qed

lemma Number_showNat: "Number (showNat n) = ofNat n"
  using Number_digits [OF showNat_nonempty showNat_digits] by (simp add: decimalValue_showNat)

lemma decValue_normDec: "0 \<le> e \<Longrightarrow> decValue (normDec m e) = m * 10 ^ nat e"
proof (induction m e rule: normDec.induct)
  case (1 m e)
  show ?case
  proof (cases "m = 0")
    case True
    then show ?thesis by (subst normDec.simps) (simp add: decValue_def)
  next
    case nz: False
    show ?thesis
    proof (cases "m mod 10 = 0")
      case False
      with nz show ?thesis by (subst normDec.simps) (simp add: decValue_def)
    next
      case True
      then have m: "m = m div 10 * 10" by presburger
      have "decValue (normDec m e) = decValue (normDec (m div 10) (e + 1))"
        using nz True by (subst normDec.simps) simp
      also have "\<dots> = m div 10 * 10 ^ nat (e + 1)"
        using 1 nz True by simp
      also have "\<dots> = m div 10 * 10 * 10 ^ nat e"
        using "1.prems" by (simp add: nat_add_distrib)
      also have "\<dots> = m * 10 ^ nat e"
        using m by simp
      finally show ?thesis .
    qed
  qed
qed

lemma ofNat_inject: "ofNat a = ofNat b \<Longrightarrow> a = b"
proof -
  assume "ofNat a = ofNat b"
  then have "decValue (normDec (int a) 0) = decValue (normDec (int b) 0)"
    by (simp add: ofNat_def)
  then show "a = b" by (simp add: decValue_normDec)
qed

section \<open>Cycle detection\<close>

lemma edges_functional: "(x, y) \<in> edges m \<Longrightarrow> (x, z) \<in> edges m \<Longrightarrow> y = z"
  by (simp add: edges_def)

lemma finished_reach:
  assumes "finished m F" and "(x, y) \<in> (edges m)\<^sup>*" and "x \<in> F"
  shows "y \<in> F"
  using assms(2,1,3) by (induction rule: rtrancl_induct) (auto simp: finished_def)

lemma finished_insert:
  assumes fin: "finished m F"
    and succ: "\<And>y. (x, y) \<in> edges m \<Longrightarrow> y \<in> F"
    and notin: "x \<notin> F"
  shows "finished m (insert x F)"
proof -
  have "(x, x) \<notin> (edges m)\<^sup>+"
  proof
    assume "(x, x) \<in> (edges m)\<^sup>+"
    then obtain z where z: "(x, z) \<in> edges m" "(z, x) \<in> (edges m)\<^sup>*"
      by (meson tranclD)
    from succ [OF z(1)] have "z \<in> F" .
    with fin z(2) have "x \<in> F" by (blast intro: finished_reach)
    with notin show False by simp
  qed
  with fin succ show ?thesis
    by (auto simp: finished_def)
qed

lemma hasCycle_spec:
  assumes "stack \<subseteq> visited"
    and "\<forall>s\<in>stack. (s, start) \<in> (edges m)\<^sup>+"
    and "finished m (visited - stack)"
  shows "case hasCycle m (visited, stack) start of
           (True, vs) \<Rightarrow> (\<exists>a. (a, a) \<in> (edges m)\<^sup>+)
         | (False, visited', stack') \<Rightarrow>
             stack' = stack \<and> visited \<subseteq> visited' \<and> start \<in> visited' - stack
             \<and> finished m (visited' - stack)"
  using assms
proof (induction m "(visited, stack)" start arbitrary: visited stack rule: hasCycle.induct)
  case (1 m visited stack start)
  show ?case
  proof (cases "start \<in> stack")
    case True
    with "1.prems"(2) have "(start, start) \<in> (edges m)\<^sup>+" by blast
    with True show ?thesis by (auto simp: hasCycle.simps)
  next
    case notstack: False
    show ?thesis
    proof (cases "start \<in> visited")
      case True
      with notstack "1.prems" show ?thesis by (simp add: hasCycle.simps)
    next
      case notvis: False
      have F_eq: "insert start visited - stack = insert start (visited - stack)"
        using notstack by auto
      have S_eq: "insert start stack - {start} = stack"
        using notstack by auto
      show ?thesis
      proof (cases "\<exists>next. map_of m start = Some next \<and> strictNeq next start")
        case False
        then have noedge: "\<And>y. (start, y) \<notin> edges m"
          by (auto simp: edges_def)
        have "finished m (insert start (visited - stack))"
          using "1.prems"(3) noedge notvis by (intro finished_insert) auto
        moreover have "hasCycle m (visited, stack) start = (False, insert start visited, stack)"
          using False notstack notvis S_eq
          by (auto simp: hasCycle.simps [of m visited stack start] split: option.splits)
        ultimately show ?thesis
          using F_eq by auto
      next
        case True
        then obtain "next" where nx: "map_of m start = Some next" "strictNeq next start"
          by blast
        then have edge: "(start, next) \<in> edges m"
          by (simp add: edges_def)
        have pre1: "insert start stack \<subseteq> insert start visited"
          using "1.prems"(1) by auto
        have pre2: "\<forall>s\<in>insert start stack. (s, next) \<in> (edges m)\<^sup>+"
          using "1.prems"(2) edge by (auto intro: trancl_into_trancl)
        have "insert start visited - insert start stack = visited - stack"
          using notvis by auto
        with "1.prems"(3) have pre3: "finished m (insert start visited - insert start stack)"
          by simp
        note IH = "1.hyps" [OF notstack notvis nx(1) nx(2) pre1 pre2 pre3]
        obtain r v' s' where res: "hasCycle m (insert start visited, insert start stack) next = (r, v', s')"
          by (cases "hasCycle m (insert start visited, insert start stack) next") auto
        show ?thesis
        proof (cases r)
          case True
          with IH res have "\<exists>a. (a, a) \<in> (edges m)\<^sup>+" by simp
          moreover have "fst (hasCycle m (visited, stack) start)"
            using True res nx notstack notvis
            by (simp add: hasCycle.simps [of m visited stack start])
          ultimately show ?thesis
            by (cases "hasCycle m (visited, stack) start") auto
        next
          case False
          with IH res have post: "s' = insert start stack" "insert start visited \<subseteq> v'"
            "next \<in> v' - insert start stack" "finished m (v' - insert start stack)"
            by simp_all
          have call: "hasCycle m (visited, stack) start = (False, v', stack)"
            using False res nx notstack notvis post(1) S_eq
            by (simp add: hasCycle.simps [of m visited stack start])
          have "start \<notin> v' - insert start stack" by simp
          moreover have "\<And>y. (start, y) \<in> edges m \<Longrightarrow> y \<in> v' - insert start stack"
            using edge post(3) edges_functional by blast
          ultimately have "finished m (insert start (v' - insert start stack))"
            using post(4) by (intro finished_insert) auto
          moreover have "insert start (v' - insert start stack) = v' - stack"
            using post(2) notstack by auto
          ultimately have "finished m (v' - stack)" by simp
          with call post(2) notstack show ?thesis by auto
        qed
      qed
    qed
  qed
qed

lemma strictNeq_sym: "strictNeq a b = strictNeq b a"
  by (auto simp: strictNeq_def)

lemma detectLoop_sound:
  "finished m V \<Longrightarrow> detectLoop m (V, {}) es \<Longrightarrow> \<exists>a. (a, a) \<in> (edges m)\<^sup>+"
proof (induction es arbitrary: V)
  case Nil
  then show ?case by simp
next
  case (Cons e es)
  obtain o' r where e: "e = (o', r)" by (cases e)
  show ?case
  proof (cases "strictNeq o' r")
    case False
    with Cons e show ?thesis by simp
  next
    case True
    obtain b V' S' where res: "hasCycle m (V, {}) o' = (b, V', S')"
      by (cases "hasCycle m (V, {}) o'") auto
    have spec: "case hasCycle m (V, {}) o' of
           (True, vs) \<Rightarrow> (\<exists>a. (a, a) \<in> (edges m)\<^sup>+)
         | (False, visited', stack') \<Rightarrow>
             stack' = {} \<and> V \<subseteq> visited' \<and> o' \<in> visited' - {}
             \<and> finished m (visited' - {})"
      using Cons.prems(1) by (intro hasCycle_spec) auto
    show ?thesis
    proof (cases b)
      case True
      with spec res show ?thesis by simp
    next
      case False
      with spec res have "S' = {}" "finished m V'" by simp_all
      moreover have "detectLoop m (V', {}) es"
        using Cons.prems(2) e True res False \<open>S' = {}\<close> by simp
      ultimately show ?thesis using Cons.IH by blast
    qed
  qed
qed

lemma detectLoop_complete:
  "finished m V \<Longrightarrow> \<not> detectLoop m (V, {}) es \<Longrightarrow>
     \<exists>V'. V \<subseteq> V' \<and> finished m V' \<and> (\<forall>(a, b)\<in>set es. strictNeq a b \<longrightarrow> a \<in> V')"
proof (induction es arbitrary: V)
  case Nil
  then show ?case by auto
next
  case (Cons e es)
  obtain o' r where e: "e = (o', r)" by (cases e)
  show ?case
  proof (cases "strictNeq o' r")
    case False
    with Cons.prems e have "\<not> detectLoop m (V, {}) es" by simp
    from Cons.IH [OF Cons.prems(1) this] False e show ?thesis by auto
  next
    case True
    obtain b V' S' where res: "hasCycle m (V, {}) o' = (b, V', S')"
      by (cases "hasCycle m (V, {}) o'") auto
    have spec: "case hasCycle m (V, {}) o' of
           (True, vs) \<Rightarrow> (\<exists>a. (a, a) \<in> (edges m)\<^sup>+)
         | (False, visited', stack') \<Rightarrow>
             stack' = {} \<and> V \<subseteq> visited' \<and> o' \<in> visited' - {}
             \<and> finished m (visited' - {})"
      using Cons.prems(1) by (intro hasCycle_spec) auto
    have nb: "\<not> b"
      using Cons.prems(2) e True res by (cases b) auto
    with spec res have post: "S' = {}" "V \<subseteq> V'" "o' \<in> V'" "finished m V'" by simp_all
    have "\<not> detectLoop m (V', {}) es"
      using Cons.prems(2) e True res nb post(1) by simp
    from Cons.IH [OF post(4) this] obtain V'' where
      "V' \<subseteq> V''" "finished m V''" "\<forall>(a, b)\<in>set es. strictNeq a b \<longrightarrow> a \<in> V''"
      by blast
    with post e show ?thesis
      by (intro exI [of _ V'']) auto
  qed
qed

lemma finished_empty: "finished m {}"
  by (simp add: finished_def)

lemma detectLoop_iff:
  "detectLoop m ({}, {}) m \<longleftrightarrow> (\<exists>a. (a, a) \<in> (edges m)\<^sup>+)"
proof
  assume "detectLoop m ({}, {}) m"
  with finished_empty show "\<exists>a. (a, a) \<in> (edges m)\<^sup>+"
    by (rule detectLoop_sound)
next
  assume "\<exists>a. (a, a) \<in> (edges m)\<^sup>+"
  then obtain a where a: "(a, a) \<in> (edges m)\<^sup>+" by blast
  then obtain z where "(a, z) \<in> edges m" by (meson tranclD)
  then have "map_of m a = Some z" "strictNeq a z"
    by (auto simp: edges_def strictNeq_sym)
  then have ent: "(a, z) \<in> set m" by (auto dest: map_of_SomeD)
  show "detectLoop m ({}, {}) m"
  proof (rule ccontr)
    assume "\<not> detectLoop m ({}, {}) m"
    from detectLoop_complete [OF finished_empty this] obtain V' where
      "finished m V'" "\<forall>(a, b)\<in>set m. strictNeq a b \<longrightarrow> a \<in> V'" by blast
    with ent \<open>strictNeq a z\<close> have "a \<in> V'" by auto
    with \<open>finished m V'\<close> a show False by (auto simp: finished_def)
  qed
qed

section \<open>The chain loop on a cycle\<close>

lemma onCycle_step:
  assumes "a \<in> onCycle m" and "map_of m a = Some b"
  shows "b \<in> onCycle m"
proof -
  from assms(1) obtain z where z: "(a, z) \<in> links m" "(z, a) \<in> (links m)\<^sup>*"
    unfolding onCycle_def by (auto dest: tranclD)
  with assms(2) have "z = b" by (simp add: links_def)
  with z have "(b, a) \<in> (links m)\<^sup>*" "(a, b) \<in> links m" by simp_all
  then have "(b, b) \<in> (links m)\<^sup>+" by (rule rtrancl_into_trancl1)
  then show ?thesis by (simp add: onCycle_def)
qed

lemma onCycle_has_link:
  assumes "a \<in> onCycle m"
  shows "\<exists>b. map_of m a = Some b"
proof -
  from assms obtain z where "(a, z) \<in> links m"
    unfolding onCycle_def by (auto dest: tranclD)
  then show ?thesis by (auto simp: links_def)
qed

lemma walkChain_Some:
  assumes ret: "walkChain m processed chain current = Some chain'"
    and disj: "processed \<inter> onCycle m = {}"
  shows "current \<notin> onCycle m \<and> set chain' \<inter> onCycle m = set chain \<inter> onCycle m"
proof -
  have "processed \<inter> onCycle m = {} \<longrightarrow>
      current \<notin> onCycle m \<and> set chain' \<inter> onCycle m = set chain \<inter> onCycle m"
  proof (rule walkChain.raw_induct
      [where P = "\<lambda>m processed chain current chain'. processed \<inter> onCycle m = {} \<longrightarrow>
         current \<notin> onCycle m \<and> set chain' \<inter> onCycle m = set chain \<inter> onCycle m",
       OF _ ret])
    fix walk :: "(jsnum \<times> jsnum) list \<Rightarrow> jsnum set \<Rightarrow> jsnum list \<Rightarrow> jsnum \<Rightarrow> jsnum list option"
    fix m processed chain current chain'
    assume IH: "\<And>m processed chain current chain'.
        walk m processed chain current = Some chain' \<Longrightarrow>
        processed \<inter> onCycle m = {} \<longrightarrow>
        current \<notin> onCycle m \<and> set chain' \<inter> onCycle m = set chain \<inter> onCycle m"
    assume eq: "(case map_of m current of None \<Rightarrow> Some chain
        | Some next \<Rightarrow> if current \<notin> processed
            then walk m processed (chain @ [current]) next else Some chain) = Some chain'"
    show "processed \<inter> onCycle m = {} \<longrightarrow>
        current \<notin> onCycle m \<and> set chain' \<inter> onCycle m = set chain \<inter> onCycle m"
    proof
      assume disj: "processed \<inter> onCycle m = {}"
      show "current \<notin> onCycle m \<and> set chain' \<inter> onCycle m = set chain \<inter> onCycle m"
      proof (cases "map_of m current")
        case None
        with eq have "chain' = chain" by simp
        moreover from None have "current \<notin> onCycle m"
          using onCycle_has_link by fastforce
        ultimately show ?thesis by simp
      next
        case (Some nxt)
        show ?thesis
        proof (cases "current \<in> processed")
          case True
          with Some eq have "chain' = chain" by simp
          moreover from True disj have "current \<notin> onCycle m" by blast
          ultimately show ?thesis by simp
        next
          case False
          with Some eq have "walk m processed (chain @ [current]) nxt = Some chain'"
            by simp
          from IH [OF this] disj
          have nx: "nxt \<notin> onCycle m"
            and ch: "set chain' \<inter> onCycle m = set (chain @ [current]) \<inter> onCycle m"
            by simp_all
          from nx Some have "current \<notin> onCycle m"
            using onCycle_step by blast
          with ch show ?thesis by auto
        qed
      qed
    qed
  qed
  with disj show ?thesis by simp
qed

lemma buildChains_cycle:
  assumes "processed \<inter> onCycle m = {}"
    and "\<exists>a\<in>onCycle m. a \<in> fst ` set entries"
    and "set entries \<subseteq> set m" and "distinct (map fst m)"
  shows "buildChains m entries processed chainList = None"
  using assms
proof (induction entries arbitrary: processed chainList)
  case Nil
  then show ?case by simp
next
  case (Cons e entries)
  obtain orig repl where e: "e = (orig, repl)" by (cases e)
  from Cons.prems(3,4) e have link: "map_of m orig = Some repl"
    by simp
  show ?case
  proof (cases "orig \<in> processed")
    case True
    with Cons.prems(1) have "orig \<notin> onCycle m" by blast
    with Cons.prems(2) e have "\<exists>a\<in>onCycle m. a \<in> fst ` set entries" by auto
    with Cons.IH [OF Cons.prems(1) this] Cons.prems(3,4) True e show ?thesis by simp
  next
    case False
    show ?thesis
    proof (cases "walkChain m processed [orig] repl")
      case None
      with False e show ?thesis by simp
    next
      case (Some chain)
      from walkChain_Some [OF Some Cons.prems(1)]
      have r: "repl \<notin> onCycle m" and c: "set chain \<inter> onCycle m = {orig} \<inter> onCycle m"
        by simp_all
      from r link have o: "orig \<notin> onCycle m" using onCycle_step by blast
      with c Cons.prems(1) have "(processed \<union> set chain) \<inter> onCycle m = {}" by auto
      moreover from o Cons.prems(2) e have "\<exists>a\<in>onCycle m. a \<in> fst ` set entries" by auto
      ultimately have "buildChains m entries (processed \<union> set chain) (chainList @ [chain]) = None"
        using Cons.IH Cons.prems(3,4) by simp
      with False Some e show ?thesis by simp
    qed
  qed
qed

lemma buildChains_diverges:
  assumes "onCycle m \<noteq> {}" and "distinct (map fst m)"
  shows "buildChains m m {} [] = None"
proof -
  from assms(1) obtain a where a: "a \<in> onCycle m" by blast
  then obtain b where "map_of m a = Some b" using onCycle_has_link by blast
  then have "a \<in> fst ` set m" by (auto dest!: map_of_SomeD intro: rev_image_eqI)
  with a show ?thesis
    by (intro buildChains_cycle) (use assms(2) in auto)
qed

section \<open>The graph of a mapping\<close>

lemma mapSet_fresh: "k \<notin> fst ` set m \<Longrightarrow> mapSet m k v = m @ [(k, v)]"
  by (induction m) auto

lemma foldl_mapSet_distinct:
  assumes "distinct (map fst acc @ map (\<lambda>(a, b). kf a) obj)"
  shows "foldl (\<lambda>m (a, b). if P a b then mapSet m (kf a) (vf b) else m) acc obj
       = acc @ map (\<lambda>(a, b). (kf a, vf b)) (filter (\<lambda>(a, b). P a b) obj)"
  using assms
proof (induction obj arbitrary: acc)
  case Nil
  then show ?case by simp
next
  case (Cons e obj)
  obtain a b where e: "e = (a, b)" by (cases e)
  show ?case
  proof (cases "P a b")
    case False
    have "distinct (map fst acc @ map (\<lambda>(a, b). kf a) obj)"
      using Cons.prems by auto
    from Cons.IH [OF this] False e show ?thesis by simp
  next
    case True
    have fresh: "kf a \<notin> fst ` set acc"
      using Cons.prems e by auto
    have "distinct (map fst (acc @ [(kf a, vf b)]) @ map (\<lambda>(a, b). kf a) obj)"
      using Cons.prems e by auto
    from Cons.IH [OF this] True e fresh show ?thesis
      by (simp add: mapSet_fresh)
  qed
qed

lemma replacementMapOf_wf:
  assumes "wellFormed obj"
  shows "replacementMapOf obj
       = map (\<lambda>(k, v). (Number k, Number v)) (filter (\<lambda>(k, v). validValue v) obj)"
  using assms foldl_mapSet_distinct [of "[]" Number obj "\<lambda>k v. validValue v" Number]
  by (simp add: replacementMapOf_def wellFormed_def validValue_def)

lemma tempReplacementsOf_wf:
  assumes "wellFormed obj"
  shows "tempReplacementsOf obj
       = map (\<lambda>(k, v). (Number k, Number v))
           (filter (\<lambda>(k, v). validValue v \<and> strictNeq (Number k) (Number v)) obj)"
  using assms foldl_mapSet_distinct [of "[]" Number obj
      "\<lambda>k v. validValue v \<and> strictNeq (Number k) (Number v)" Number]
  by (simp add: tempReplacementsOf_def wellFormed_def validValue_def conj_assoc)

lemma distinct_keys_filter:
  assumes "wellFormed obj"
  shows "distinct (map fst (map (\<lambda>(k, v). (Number k, Number v)) (filter Q obj)))"
proof -
  have eq: "map fst (map (\<lambda>(k, v). (Number k, Number v)) (filter Q obj))
      = map (\<lambda>(k, v). Number k) (filter Q obj)"
    by (induction obj) auto
  have "distinct (map (\<lambda>(k, v). Number k) (filter Q obj))"
    using assms unfolding wellFormed_def by (rule distinct_map_filter)
  then show ?thesis unfolding eq .
qed

lemma strictNeq_valid: "validValue v \<Longrightarrow> strictNeq x (Number v) = (x \<noteq> Number v)"
  by (auto simp: validValue_def isNaN_def strictNeq_def)

lemma edges_replacementMapOf:
  assumes "wellFormed obj"
  shows "edges (replacementMapOf obj) = mappingEdges obj"
proof -
  let ?R = "map (\<lambda>(k, v). (Number k, Number v)) (filter (\<lambda>(k, v). validValue v) obj)"
  have d: "distinct (map fst ?R)" using assms by (rule distinct_keys_filter)
  have "edges ?R = mappingEdges obj"
    unfolding edges_def mappingEdges_def
    using d by (auto simp: strictNeq_valid strictNeq_sym [of "Number _" "Number _"])
  with assms show ?thesis by (simp add: replacementMapOf_wf)
qed

lemma links_tempReplacementsOf:
  assumes "wellFormed obj"
  shows "links (tempReplacementsOf obj) = mappingEdges obj"
proof -
  let ?T = "map (\<lambda>(k, v). (Number k, Number v))
           (filter (\<lambda>(k, v). validValue v \<and> strictNeq (Number k) (Number v)) obj)"
  have d: "distinct (map fst ?T)" using assms by (rule distinct_keys_filter)
  have "links ?T = mappingEdges obj"
    unfolding links_def mappingEdges_def
    using d by (auto simp: strictNeq_valid)
  with assms show ?thesis by (simp add: tempReplacementsOf_wf)
qed

lemma detectCycle_iff:
  assumes "wellFormed obj"
  shows "detectCycle obj \<longleftrightarrow> (\<exists>a. (a, a) \<in> (mappingEdges obj)\<^sup>+)"
  using assms by (simp add: detectCycle_def detectLoop_iff edges_replacementMapOf)

lemma fixGroup_cycle:
  assumes "wellFormed obj" and "detectCycle obj"
  shows "fixGroup hasCircular obj = None"
proof -
  from assms have "onCycle (tempReplacementsOf obj) \<noteq> {}"
    by (auto simp: onCycle_def links_tempReplacementsOf detectCycle_iff)
  moreover have "distinct (map fst (tempReplacementsOf obj))"
    using assms(1) by (simp only: tempReplacementsOf_wf distinct_keys_filter)
  ultimately have "buildChains (tempReplacementsOf obj) (tempReplacementsOf obj) {} [] = None"
    by (rule buildChains_diverges)
  with assms(2) show ?thesis by (simp add: fixGroup_def)
qed

lemma fixGroup_no_cycle:
  assumes "\<not> detectCycle obj"
  shows "fixGroup False obj = Some (False, obj)"
  using assms by (simp add: fixGroup_def)

lemma fixGroups_cycle:
  assumes "\<forall>(k, obj)\<in>set groups. wellFormed obj"
    and "\<exists>(k, obj)\<in>set groups. detectCycle obj"
  shows "fixGroups False groups = None"
  using assms
proof (induction groups)
  case Nil
  then show ?case by simp
next
  case (Cons g groups)
  obtain k obj where g: "g = (k, obj)" by (cases g)
  show ?case
  proof (cases "detectCycle obj")
    case True
    moreover from Cons.prems(1) g have "wellFormed obj" by simp
    ultimately show ?thesis using g by (simp add: fixGroup_cycle)
  next
    case False
    with Cons.prems g have "fixGroups False groups = None"
      by (intro Cons.IH) auto
    with False g show ?thesis by (simp add: fixGroup_no_cycle)
  qed
qed

lemma fixGroups_no_cycle:
  assumes "\<forall>(k, obj)\<in>set groups. \<not> detectCycle obj"
  shows "fixGroups False groups = Some (False, groups)"
  using assms by (induction groups) (auto simp: fixGroup_no_cycle)

lemma groupObject_wellFormed:
  assumes "distinct (map fst entries)"
  shows "wellFormed (groupObject entries)"
proof -
  have "map (\<lambda>(k, v). Number k) (groupObject entries) = map (\<lambda>e. ofNat (fst e)) entries"
    by (simp add: groupObject_def case_prod_unfold Number_showNat)
  also have "\<dots> = map ofNat (map fst entries)" by simp
  finally have eq: "map (\<lambda>(k, v). Number k) (groupObject entries) = map ofNat (map fst entries)" .
  have "inj_on ofNat (set (map fst entries))"
    by (rule inj_onI) (rule ofNat_inject)
  with assms have "distinct (map ofNat (map fst entries))"
    by (simp only: distinct_map)
  then show ?thesis by (simp only: wellFormed_def eq)
qed

section \<open>Detection and resolution\<close>

lemma mappingEdges_irrefl: "(x, x) \<notin> mappingEdges obj"
  by (auto simp: mappingEdges_def)

lemma cycle_two_values:
  "(\<exists>a. (a, a) \<in> (mappingEdges obj)\<^sup>+)
     \<longleftrightarrow> (\<exists>a b. a \<noteq> b \<and> (a, b) \<in> (mappingEdges obj)\<^sup>+ \<and> (b, a) \<in> (mappingEdges obj)\<^sup>+)"
proof
  assume "\<exists>a. (a, a) \<in> (mappingEdges obj)\<^sup>+"
  then obtain a where "(a, a) \<in> (mappingEdges obj)\<^sup>+" by blast
  then obtain z where z: "(a, z) \<in> mappingEdges obj" "(z, a) \<in> (mappingEdges obj)\<^sup>*"
    by (meson tranclD)
  from z(1) have ne: "a \<noteq> z" using mappingEdges_irrefl by metis
  with z(2) have "(z, a) \<in> (mappingEdges obj)\<^sup>+" by (auto dest: rtranclD)
  with z(1) ne show "\<exists>a b. a \<noteq> b \<and> (a, b) \<in> (mappingEdges obj)\<^sup>+ \<and> (b, a) \<in> (mappingEdges obj)\<^sup>+"
    by blast
next
  assume "\<exists>a b. a \<noteq> b \<and> (a, b) \<in> (mappingEdges obj)\<^sup>+ \<and> (b, a) \<in> (mappingEdges obj)\<^sup>+"
  then show "\<exists>a. (a, a) \<in> (mappingEdges obj)\<^sup>+"
    by (meson trancl_trans)
qed

lemma wf12: "wellFormed [(''1'', ''2''), (''2'', ''1'')]"
  by (simp add: wellFormed_def Number_simps)

lemma dc12: "detectCycle [(''1'', ''2''), (''2'', ''1'')]"
  by (simp add: detectCycle_def replacementMapOf_def isNaN_def strictNeq_def Number_simps hasCycle.simps)

lemma wf123: "wellFormed [(''1'', ''2''), (''2'', ''3''), (''3'', ''1'')]"
  by (simp add: wellFormed_def Number_simps)

lemma dc123: "detectCycle [(''1'', ''2''), (''2'', ''3''), (''3'', ''1'')]"
  by (simp add: detectCycle_def replacementMapOf_def isNaN_def strictNeq_def Number_simps hasCycle.simps)

text \<open>A chain that ends in an entry left as it is has no cycle, and none is detected.\<close>

lemma chain_not_detected: "\<not> detectCycle [(''1'', ''2''), (''2'', ''3''), (''3'', ''3'')]"
  by (simp add: detectCycle_def replacementMapOf_def isNaN_def strictNeq_def Number_simps hasCycle.simps)

text \<open>
  Claim C3. For a mapping in which no two keys are the same number, the detection loop
  sets the flag \<open>hasCircular\<close> if and only if the graph of the mapping (an edge from \<open>x\<close>
  to \<open>y\<close> when an entry with a valid number sends \<open>x\<close> to \<open>y\<close> and \<open>x \<noteq> y\<close>) has a chain
  from some value through another value back to itself.
\<close>

theorem detection_finds_exactly_the_cycles:
  assumes "wellFormed obj"
  shows "detectCycle obj \<longleftrightarrow>
    (\<exists>a b. a \<noteq> b \<and> (a, b) \<in> (mappingEdges obj)\<^sup>+ \<and> (b, a) \<in> (mappingEdges obj)\<^sup>+)"
  using assms by (simp only: detectCycle_iff cycle_two_values)

theorem detection_finds_exactly_the_cycles_witness:
  "wellFormed [(''1'', ''2''), (''2'', ''1'')] \<and> detectCycle [(''1'', ''2''), (''2'', ''1'')]
   \<and> (\<exists>a b. a \<noteq> b \<and> (a, b) \<in> (mappingEdges [(''1'', ''2''), (''2'', ''1'')])\<^sup>+
        \<and> (b, a) \<in> (mappingEdges [(''1'', ''2''), (''2'', ''1'')])\<^sup>+)"
  using detection_finds_exactly_the_cycles [OF wf12] wf12 dc12 by simp

text \<open>
  When no group has a cycle, the resolver returns the mapping as it was, with the flag
  unset. So whenever the resolver returns, the flag is unset and nothing was fixed.
\<close>

lemma resolver_without_cycle:
  assumes "\<forall>(paramKey, obj)\<in>set replacements. \<not> detectCycle obj"
  shows "detectAndFixCircularReplacements replacements = Some (False, replacements)"
  using assms unfolding detectAndFixCircularReplacements_def by (rule fixGroups_no_cycle)

lemma resolver_never_flags:
  assumes "\<forall>(paramKey, obj)\<in>set replacements. wellFormed obj"
    and "detectAndFixCircularReplacements replacements = Some (hasCircular, fixedReplacements)"
  shows "\<not> hasCircular \<and> fixedReplacements = replacements"
proof (cases "\<exists>(paramKey, obj)\<in>set replacements. detectCycle obj")
  case True
  with assms(1) have "fixGroups False replacements = None" by (rule fixGroups_cycle)
  with assms(2) show ?thesis by (simp add: detectAndFixCircularReplacements_def)
next
  case False
  then have "\<forall>(paramKey, obj)\<in>set replacements. \<not> detectCycle obj" by auto
  then have "fixGroups False replacements = Some (False, replacements)"
    by (rule fixGroups_no_cycle)
  with assms(2) show ?thesis by (simp add: detectAndFixCircularReplacements_def)
qed

text \<open>
  Claim C1. The claim is that on a detected cycle the resolver ends and returns a fixed
  mapping together with the flag. The code does not: whenever the detection finds a cycle
  in a group, the loop that follows the chain of that group does not end, and the
  resolver returns nothing.
\<close>

theorem detected_cycle_never_returns:
  assumes "\<forall>(paramKey, obj)\<in>set replacements. wellFormed obj"
    and "\<exists>(paramKey, obj)\<in>set replacements. detectCycle obj"
  shows "detectAndFixCircularReplacements replacements = None"
  using assms unfolding detectAndFixCircularReplacements_def by (rule fixGroups_cycle)

theorem detected_cycle_never_returns_witness:
  "wellFormed [(''1'', ''2''), (''2'', ''3''), (''3'', ''1'')]
   \<and> detectCycle [(''1'', ''2''), (''2'', ''3''), (''3'', ''1'')]
   \<and> detectAndFixCircularReplacements
        [(''1,2,3'', [(''1'', ''2''), (''2'', ''3''), (''3'', ''1'')])] = None"
  using detected_cycle_never_returns
    [of "[(''1,2,3'', [(''1'', ''2''), (''2'', ''3''), (''3'', ''1'')])]"] wf123 dc123
  by simp

text \<open>
  Claim C2. For the mapping \<open>{1: 2, 2: 1}\<close> the claim is that the resolver produces a fixed
  mapping. The code produces none: the resolver does not return, and neither does the
  effect of the dialog that calls it.
\<close>

theorem two_cycle_no_result:
  "detectAndFixCircularReplacements [(''1,2'', [(''1'', ''2''), (''2'', ''1'')])] = None
   \<and> validateEffect
        \<lparr>parameterGroups = [(''1,2'', [''A'', ''B''])],
         groupReplacements = [(''1,2'', [(''1'', ''2''), (''2'', ''1'')])],
         isValid = True, errorMessage = NoNotice, autoFixed = False\<rparr> = None"
proof -
  have "fixGroups False [(''1,2'', [(''1'', ''2''), (''2'', ''1'')])] = None"
    by (rule fixGroups_cycle) (simp_all add: wf12 dc12)
  then show ?thesis
    by (simp add: detectAndFixCircularReplacements_def validateEffect_def)
qed

section \<open>The extractor and the patterns of a text\<close>

lemma tokenAt_Cons:
  "tokenAt (c # cs) =
     (if c = CHR ''{'' \<and> takeWhile isDigit cs \<noteq> [] \<and> take 1 (dropWhile isDigit cs) = ''}''
      then [decimalValue (takeWhile isDigit cs)] else [])"
  by (simp add: tokenAt_def)

lemma tokenAt_iff:
  "tokenAt s = [n] \<longleftrightarrow>
     (\<exists>ds rest. ds \<noteq> [] \<and> list_all isDigit ds \<and> s = CHR ''{'' # ds @ CHR ''}'' # rest
        \<and> n = decimalValue ds)"
proof
  assume tok: "tokenAt s = [n]"
  then obtain c cs where s: "s = c # cs"
    by (cases s) (simp_all add: tokenAt_def)
  from tok have cond: "c = CHR ''{''" "takeWhile isDigit cs \<noteq> []"
    "take 1 (dropWhile isDigit cs) = ''}''" and n: "n = decimalValue (takeWhile isDigit cs)"
    unfolding s tokenAt_Cons by (simp_all split: if_splits)
  from cond(3) obtain rest where dr': "dropWhile isDigit cs = CHR ''}'' # rest"
    by (cases "dropWhile isDigit cs") simp_all
  have cs: "cs = takeWhile isDigit cs @ CHR ''}'' # rest"
    using takeWhile_dropWhile_id [of isDigit cs] dr' by simp
  have digs: "list_all isDigit (takeWhile isDigit cs)"
    by (auto simp: list_all_iff dest: set_takeWhileD)
  have "s = CHR ''{'' # takeWhile isDigit cs @ CHR ''}'' # rest"
    using s cs cond(1) by simp
  with cond(2) digs n show "\<exists>ds rest. ds \<noteq> [] \<and> list_all isDigit ds
      \<and> s = CHR ''{'' # ds @ CHR ''}'' # rest \<and> n = decimalValue ds"
    by (intro exI conjI)
next
  assume "\<exists>ds rest. ds \<noteq> [] \<and> list_all isDigit ds \<and> s = CHR ''{'' # ds @ CHR ''}'' # rest
      \<and> n = decimalValue ds"
  then obtain ds rest where ds: "ds \<noteq> []" "list_all isDigit ds"
    and s: "s = CHR ''{'' # ds @ CHR ''}'' # rest" and n: "n = decimalValue ds" by blast
  have nd: "\<not> isDigit CHR ''}''" by (simp add: isDigit_def)
  have tw: "takeWhile isDigit (ds @ CHR ''}'' # rest) = ds"
    using ds(2) nd by (simp add: takeWhile_append2 list_all_iff)
  have dw: "dropWhile isDigit (ds @ CHR ''}'' # rest) = CHR ''}'' # rest"
    using ds(2) nd by (simp add: dropWhile_append2 list_all_iff)
  show "tokenAt s = [n]"
    unfolding s tokenAt_Cons tw dw using ds(1) n by simp
qed

lemma occurrences_skip:
  "CHR ''{'' \<notin> set p \<Longrightarrow> occurrences (p @ rest) = occurrences rest"
proof (induction p)
  case Nil
  then show ?case by simp
next
  case (Cons a p)
  then have "a \<noteq> CHR ''{''" by auto
  then have "tokenAt (a # p @ rest) = []"
    by (simp add: tokenAt_Cons)
  with Cons show ?case by simp
qed

lemma stripBraces_token:
  assumes "list_all isDigit ds"
  shows "stripBraces (CHR ''{'' # ds @ [CHR ''}'']) = ds"
proof -
  have "\<forall>c\<in>set ds. c \<noteq> CHR ''{'' \<and> c \<noteq> CHR ''}''"
    using assms isDigit_not_brace by (simp add: list_all_iff)
  then have "filter (\<lambda>c. c \<noteq> CHR ''{'' \<and> c \<noteq> CHR ''}'') ds = ds"
    by (simp add: filter_id_conv)
  then show ?thesis by (simp add: stripBraces_def)
qed

lemma decimalValue_takeWhile: "decimalValue (takeWhile isDigit cs) = decimalValue cs"
  by (simp add: decimalValue_def)

lemma matchParams_occurrences:
  "map (\<lambda>m. parseInt (stripBraces m)) (matchParams str) = map toDouble (occurrences str)"
proof (induction str rule: matchParams.induct)
  case 1
  then show ?case by simp
next
  case (2 c cs)
  let ?ds = "takeWhile isDigit cs"
  let ?f = "\<lambda>m. parseInt (stripBraces m)"
  show ?case
  proof (cases "c = CHR ''{'' \<and> ?ds \<noteq> []")
    case False
    then have "matchParams (c # cs) = matchParams cs" by auto
    moreover have "tokenAt (c # cs) = []" using False by (auto simp: tokenAt_Cons)
    moreover have "map ?f (matchParams cs) = map toDouble (occurrences cs)" by (rule 2(4) [OF False])
    ultimately show ?thesis by simp
  next
    case True
    show ?thesis
    proof (cases "dropWhile isDigit cs")
      case Nil
      have "matchParams (c # cs) = matchParams cs"
        using True by (simp add: Nil del: dropWhile_eq_Nil_conv)
      moreover have "tokenAt (c # cs) = []"
        by (simp add: tokenAt_Cons Nil del: dropWhile_eq_Nil_conv)
      moreover have "map ?f (matchParams cs) = map toDouble (occurrences cs)" by (rule 2(1) [OF True Nil])
      ultimately show ?thesis by simp
    next
      case (Cons d rest)
      show ?thesis
      proof (cases "d = CHR ''}''")
        case False
        have "matchParams (c # cs) = matchParams cs"
          using False by (simp add: Cons)
        moreover have "tokenAt (c # cs) = []"
          using False by (simp add: tokenAt_Cons Cons)
        moreover have "map ?f (matchParams cs) = map toDouble (occurrences cs)"
          by (rule 2(3) [OF True Cons False])
        ultimately show ?thesis by simp
      next
        case close: True
        have digs: "list_all isDigit ?ds"
          by (auto simp: list_all_iff dest: set_takeWhileD)
        have cs: "cs = (?ds @ [d]) @ rest"
          using takeWhile_dropWhile_id [of isDigit cs] Cons by simp
        have "CHR ''{'' \<notin> set (?ds @ [d])"
          using digs close isDigit_not_brace by (auto simp: list_all_iff)
        then have "occurrences ((?ds @ [d]) @ rest) = occurrences rest"
          by (rule occurrences_skip)
        with cs have skip: "occurrences cs = occurrences rest" by simp
        have IH: "map ?f (matchParams rest) = map toDouble (occurrences rest)"
          by (rule 2(2) [OF True Cons close])
        have tok: "tokenAt (c # cs) = [decimalValue ?ds]"
          using True close by (simp add: tokenAt_Cons Cons)
        have m: "matchParams (c # cs) = (c # ?ds @ [d]) # matchParams rest"
          using True close by (simp add: Cons)
        have "?f (c # ?ds @ [d]) = toDouble (decimalValue ?ds)"
          using True close stripBraces_token [OF digs] by (simp add: parseInt_def)
        then show ?thesis
          unfolding m using IH tok skip by simp
      qed
    qed
  qed
qed

lemma extractParameters_occurrences:
  "extractParameters str =
     (if occurrences str = [] then None else Some (sort (map toDouble (occurrences str))))"
proof -
  have "extractParameters str
      = (case matchParams str of [] \<Rightarrow> None
         | m # ms \<Rightarrow> Some (sort (map (\<lambda>x. parseInt (stripBraces x)) (matchParams str))))"
    by (simp add: extractParameters_def split: list.splits)
  also have "\<dots> = (if occurrences str = [] then None
                     else Some (sort (map toDouble (occurrences str))))"
    using matchParams_occurrences [of str] by (cases "matchParams str") auto
  finally show ?thesis .
qed

lemma extractParameters_exact:
  assumes "\<forall>n\<in>set (occurrences str). n \<le> 2 ^ 53"
  shows "extractParameters str =
     (if occurrences str = [] then None else Some (map enat (sort (occurrences str))))"
  unfolding extractParameters_occurrences map_toDouble_exact [OF assms] sort_map_enat
  by (rule refl)

lemma occurrences_renderTokens:
  assumes "\<forall>part\<in>set parts. CHR ''{'' \<notin> set (fst part)" and "CHR ''{'' \<notin> set tail"
  shows "occurrences (renderTokens parts tail) = map snd parts"
  using assms(1)
proof (induction parts)
  case Nil
  have "occurrences (tail @ []) = occurrences []"
    using assms(2) by (rule occurrences_skip)
  then show ?case by simp
next
  case (Cons part parts)
  obtain sep n where part: "part = (sep, n)" by (cases part)
  let ?rest = "renderTokens parts tail"
  have sep: "CHR ''{'' \<notin> set sep" using Cons.prems part by simp
  have IH: "occurrences ?rest = map snd parts" using Cons by simp
  have dg: "list_all isDigit (showNat n)" by (rule showNat_digits)
  have "\<exists>ds rest. ds \<noteq> [] \<and> list_all isDigit ds
      \<and> CHR ''{'' # showNat n @ CHR ''}'' # ?rest = CHR ''{'' # ds @ CHR ''}'' # rest
      \<and> n = decimalValue ds"
  proof (intro exI conjI)
    show "showNat n \<noteq> []" by (rule showNat_nonempty)
    show "list_all isDigit (showNat n)" by (rule dg)
    show "CHR ''{'' # showNat n @ CHR ''}'' # ?rest = CHR ''{'' # showNat n @ CHR ''}'' # ?rest"
      by (rule refl)
    show "n = decimalValue (showNat n)" by (simp add: decimalValue_showNat)
  qed
  then have tok: "tokenAt (CHR ''{'' # showNat n @ CHR ''}'' # ?rest) = [n]"
    by (simp only: tokenAt_iff)
  have "CHR ''{'' \<notin> set (showNat n @ ''}'')"
    using digits_no_brace [OF dg] by simp
  then have "occurrences ((showNat n @ ''}'') @ ?rest) = occurrences ?rest"
    by (rule occurrences_skip)
  then have inner: "occurrences (showNat n @ CHR ''}'' # ?rest) = occurrences ?rest"
    by simp
  have "occurrences (sep @ CHR ''{'' # showNat n @ CHR ''}'' # ?rest)
      = occurrences (CHR ''{'' # showNat n @ CHR ''}'' # ?rest)"
    using sep by (rule occurrences_skip)
  also have "\<dots> = n # occurrences ?rest"
    using tok inner by simp
  finally show ?case using IH part by simp
qed

lemma extract_renderTokens:
  assumes "\<forall>part\<in>set parts. CHR ''{'' \<notin> set (fst part)" and "CHR ''{'' \<notin> set tail"
    and "\<forall>part\<in>set parts. snd part \<le> 2 ^ 53"
  shows "extractParameters (renderTokens parts tail)
       = (if parts = [] then None else Some (map enat (sort (map snd parts))))"
proof -
  have occ: "occurrences (renderTokens parts tail) = map snd parts"
    by (rule occurrences_renderTokens [OF assms(1,2)])
  have "\<forall>n\<in>set (occurrences (renderTokens parts tail)). n \<le> 2 ^ 53"
    unfolding occ using assms(3) by simp
  then show ?thesis
    by (simp add: extractParameters_exact occ)
qed

section \<open>The comparison run\<close>

lemma sort_neq_iff: "sort (xs :: 'a :: linorder list) \<noteq> sort ys \<longleftrightarrow> mset xs \<noteq> mset ys"
proof -
  have "mset xs = mset ys \<Longrightarrow> sort xs = sort ys"
    by (rule properties_for_sort) simp_all
  moreover have "sort xs = sort ys \<Longrightarrow> mset xs = mset ys"
    by (metis mset_sort)
  ultimately show ?thesis by blast
qed

lemma findDifferences_Nil_iff:
  "findDifferences sel (base # others) = [] \<longleftrightarrow>
     \<not> (\<exists>p\<in>set others. fieldId p \<in> set sel \<and> mset (parameters p) \<noteq> mset (parameters base))"
  by (auto simp: filter_empty_conv sort_neq_iff)

lemma inconsistent_iff:
  "inconsistent sel params \<longleftrightarrow> \<not> length params < 2 \<and> findDifferences sel params \<noteq> []"
proof (cases params)
  case Nil
  then show ?thesis by (simp add: inconsistent_def)
next
  case (Cons base others)
  have "\<not> length params < 2 \<longleftrightarrow> others \<noteq> []"
    using Cons by (cases others) auto
  then show ?thesis
    using findDifferences_Nil_iff [of sel base others] Cons
    by (auto simp: inconsistent_def)
qed

lemma compareRecords_expected:
  "compareRecords sel fs (m0 # ms) records acc
     = Inr (acc @ expectedResult sel fs (m0 # ms) m0 records)"
proof (induction records arbitrary: acc)
  case Nil
  then show ?case by (simp add: expectedResult_def map_filter_simps)
next
  case (Cons r records)
  let ?params = "extractParametersFromRecord r fs (m0 # ms)"
  have tl: "expectedResult sel fs (m0 # ms) m0 (r # records)
      = (if inconsistent sel ?params then [reportOf sel m0 r ?params] else [])
        @ expectedResult sel fs (m0 # ms) m0 records"
    by (simp add: expectedResult_def map_filter_simps)
  show ?case
  proof (cases "inconsistent sel ?params")
    case True
    then have "\<not> length ?params < 2" "findDifferences sel ?params \<noteq> []"
      by (simp_all add: inconsistent_iff)
    then show ?thesis
      using True Cons.IH tl by (simp add: Let_def reportOf_def allFieldParams_def)
  next
    case False
    then have "length ?params < 2 \<or> findDifferences sel ?params = []"
      by (auto simp: inconsistent_iff)
    then show ?thesis
      using False Cons.IH tl by (auto simp: Let_def)
  qed
qed

lemma findDifferences_none_selected: "findDifferences [] params = []"
  by (cases params) simp_all

lemma compareRecords_none_selected: "compareRecords [] fs metas records acc = Inr acc"
  by (induction records arbitrary: acc) (simp_all add: Let_def findDifferences_none_selected)

lemma tryCompare_answers:
  assumes "hostAnswers h fs metas records"
  shows "tryCompare h sel =
     (if records = [] then Some (Inr None)
      else (case compareRecords sel fs metas records [] of
              Inl e \<Rightarrow> Some (Inl e)
            | Inr cs \<Rightarrow> Some (Inr (Some cs))))"
  using assms by (simp add: tryCompare_def hostAnswers_def)

lemma fetchRecords_fails:
  assumes "list_all (\<lambda>pg. truthy (snd pg)) pages"
  shows "fetchRecords (map Inr pages @ Inl e # rest) acc = Some (Inl e)"
  using assms by (induction pages arbitrary: acc) (auto simp: case_prod_beta)

lemma tryCompare_fails:
  assumes "hostFails h e"
  shows "tryCompare h sel = Some (Inl e)"
proof -
  have pf: "pagesFail (getRecords h) e \<Longrightarrow> fetchRecords (getRecords h) [] = Some (Inl e)"
    by (auto simp: pagesFail_def fetchRecords_fails)
  from assms show ?thesis
    unfolding hostFails_def tryCompare_def
    by (auto simp: pf split: sum.splits)
qed

lemma tryCompare_result:
  assumes "tryCompare h sel = Some (Inr (Some cs))"
  shows "\<exists>fs metas records. hostAnswers h fs metas records \<and> records \<noteq> []
           \<and> compareRecords sel fs metas records [] = Inr cs"
  using assms unfolding tryCompare_def hostAnswers_def
  by (auto split: sum.splits option.splits if_splits)

subsection \<open>The entries of a record and its token-bearing fields\<close>

lemma findMeta_None: "findMeta metas f = None \<longleftrightarrow> f \<notin> metaId ` set metas"
  by (force simp: findMeta_def find_None_iff)

lemma findMeta_Some:
  assumes "findMeta metas f = Some m"
  shows "map_of metas f = Some (metaName m) \<and> f \<in> metaId ` set metas"
  using assms unfolding findMeta_def
  by (induction metas) (auto split: if_splits)

lemma paramInfoOf_entry:
  "paramInfoOf rcd metas f =
     (if tokensOf rcd f = [] then None else Some (entryOf rcd metas f))"
proof (cases "findMeta metas f")
  case None
  then have "f \<notin> metaId ` set metas" by (simp add: findMeta_None)
  moreover from this have "map_of metas f = None"
    by (simp add: map_of_eq_None_iff)
  ultimately show ?thesis
    using None
    by (simp add: paramInfoOf_def tokensOf_def entryOf_def displayName_def viewIndex_def
        extractParameters_occurrences split: option.splits list.splits segment.splits)
next
  case (Some m)
  from findMeta_Some [OF Some] show ?thesis
    using Some
    by (simp add: paramInfoOf_def tokensOf_def entryOf_def displayName_def viewIndex_def
        extractParameters_occurrences split: option.splits list.splits segment.splits)
qed

lemma map_filter_entries:
  "List.map_filter (paramInfoOf rcd metas) fs
     = map (entryOf rcd metas) (filter (\<lambda>f. tokensOf rcd f \<noteq> []) fs)"
  by (induction fs) (simp_all add: map_filter_simps paramInfoOf_entry)

lemma insort_key_map:
  "insort_key k (g x) (map g ys) = map g (insort_key (\<lambda>y. k (g y)) x ys)"
  by (induction ys) simp_all

lemma sort_key_map: "sort_key k (map g xs) = map g (sort_key (\<lambda>y. k (g y)) xs)"
  by (induction xs) (simp_all add: insort_key_map)

lemma indexOfMeta_Cons:
  "indexOfMeta (m # ms) f = (if metaId m = f then 0 else Suc (indexOfMeta ms f))"
  by (simp add: indexOfMeta_def)

lemma indexOfMeta_upt:
  assumes "distinct (map metaId metas)"
  shows "map (indexOfMeta metas) (map metaId metas) = [0..<length metas]"
  using assms
proof (induction metas)
  case Nil
  then show ?case by simp
next
  case (Cons m ms)
  have IH: "map (indexOfMeta ms) (map metaId ms) = [0..<length ms]"
    using Cons by simp
  have "\<forall>x\<in>set ms. indexOfMeta (m # ms) (metaId x) = Suc (indexOfMeta ms (metaId x))"
    using Cons.prems by (auto simp: indexOfMeta_Cons)
  then have "map (indexOfMeta (m # ms)) (map metaId ms)
      = map Suc (map (indexOfMeta ms) (map metaId ms))"
    by simp
  also have "\<dots> = [Suc 0..<Suc (length ms)]"
    unfolding IH by (rule map_Suc_upt)
  finally have "map (indexOfMeta (m # ms)) (map metaId (m # ms)) = 0 # [Suc 0..<Suc (length ms)]"
    by (simp add: indexOfMeta_Cons)
  also have "\<dots> = [0..<length (m # ms)]"
    by (simp add: upt_conv_Cons del: upt_Suc)
  finally show ?case .
qed

lemma indexOfMeta_less:
  assumes "f \<in> metaId ` set metas"
  shows "indexOfMeta metas f < length metas"
  using assms by (induction metas) (auto simp: indexOfMeta_Cons)

lemma indexOfMeta_nth:
  assumes "f \<in> metaId ` set metas"
  shows "metaId (metas ! indexOfMeta metas f) = f"
  using assms by (induction metas) (auto simp: indexOfMeta_Cons)

lemma viewIndex_eq_iff:
  assumes "length metas \<le> MAX_SAFE_INTEGER"
  shows "viewIndex metas f = viewIndex metas g \<longleftrightarrow>
     f = g \<or> (f \<notin> metaId ` set metas \<and> g \<notin> metaId ` set metas)"
proof (cases "f \<in> metaId ` set metas"; cases "g \<in> metaId ` set metas")
  assume f: "f \<in> metaId ` set metas" and g: "g \<in> metaId ` set metas"
  have "indexOfMeta metas f = indexOfMeta metas g \<Longrightarrow> f = g"
    using indexOfMeta_nth [OF f] indexOfMeta_nth [OF g] by metis
  then show ?thesis using f g by (auto simp: viewIndex_def)
next
  assume f: "f \<in> metaId ` set metas" and g: "g \<notin> metaId ` set metas"
  then show ?thesis
    using indexOfMeta_less [OF f] assms by (auto simp: viewIndex_def)
next
  assume f: "f \<notin> metaId ` set metas" and g: "g \<in> metaId ` set metas"
  then show ?thesis
    using indexOfMeta_less [OF g] assms by (auto simp: viewIndex_def)
next
  assume "f \<notin> metaId ` set metas" and "g \<notin> metaId ` set metas"
  then show ?thesis by (simp add: viewIndex_def)
qed

lemma sorted_map_const:
  assumes "\<forall>x\<in>set xs. k x = c"
  shows "sorted (map k xs)"
  using assms by (induction xs) auto

lemma viewOrder_sorted:
  assumes "distinct (map metaId metas)" and "length metas \<le> MAX_SAFE_INTEGER"
  shows "sorted (map (viewIndex metas) (viewOrder metas fs))"
proof -
  let ?A = "filter (\<lambda>f. f \<in> set fs) (map metaId metas)"
  let ?B = "filter (\<lambda>f. f \<notin> metaId ` set metas) fs"
  have "map (viewIndex metas) (map metaId metas) = map (indexOfMeta metas) (map metaId metas)"
    by (simp add: viewIndex_def)
  also have "\<dots> = [0..<length metas]"
    by (rule indexOfMeta_upt [OF assms(1)])
  finally have "sorted (map (viewIndex metas) (map metaId metas))"
    by (metis sorted_upt)
  then have a: "sorted (map (viewIndex metas) ?A)"
    by (rule sorted_filter)
  have b: "sorted (map (viewIndex metas) ?B)"
    by (rule sorted_map_const [where c = MAX_SAFE_INTEGER]) (simp add: viewIndex_def)
  have "viewIndex metas x \<le> viewIndex metas y" if "x \<in> set ?A" and "y \<in> set ?B" for x y
  proof -
    from that have x: "x \<in> metaId ` set metas" and y: "y \<notin> metaId ` set metas" by auto
    show ?thesis
      using indexOfMeta_less [OF x] assms(2) x y by (simp add: viewIndex_def)
  qed
  with a b show ?thesis
    by (auto simp: viewOrder_def sorted_append)
qed

lemma viewOrder_mset:
  assumes "distinct fs" and "distinct (map metaId metas)"
  shows "mset (viewOrder metas fs) = mset fs"
proof -
  have "distinct (viewOrder metas fs)"
    using assms by (auto simp: viewOrder_def)
  moreover have "set (viewOrder metas fs) = set fs"
    by (auto simp: viewOrder_def)
  ultimately show ?thesis
    using assms(1) set_eq_iff_mset_eq_distinct by blast
qed


lemma filter_eq_mset:
  assumes "mset xs = mset ys"
  shows "filter (\<lambda>y. x = y) xs = filter (\<lambda>y. x = y) ys"
proof -
  have "filter (\<lambda>y. x = y) xs = replicate (count (mset xs) x) x"
    by (simp add: replicate_count_mset_eq_filter_eq)
  also have "\<dots> = filter (\<lambda>y. x = y) ys"
    unfolding assms by (simp add: replicate_count_mset_eq_filter_eq)
  finally show ?thesis .
qed

lemma filter_swap: "filter P (filter Q xs) = filter Q (filter P xs)"
  by (induction xs) simp_all

lemma sort_tokenFields:
  assumes "distinct fs" and "distinct (map metaId metas)"
    and "length metas \<le> MAX_SAFE_INTEGER"
  shows "sort_key (viewIndex metas) (filter (\<lambda>f. tokensOf rcd f \<noteq> []) fs)
       = tokenFields rcd fs metas"
proof (rule properties_for_sort_key)
  let ?tok = "\<lambda>f. tokensOf rcd f \<noteq> []"
  let ?hidden = "\<lambda>f. f \<notin> metaId ` set metas"
  let ?B = "filter ?hidden fs"
  have ms: "mset (tokenFields rcd fs metas) = mset (filter ?tok fs)"
    using viewOrder_mset [OF assms(1,2)] by (simp add: tokenFields_def)
  show "mset (tokenFields rcd fs metas) = mset (filter ?tok fs)" by (rule ms)
  show "sorted (map (viewIndex metas) (tokenFields rcd fs metas))"
    unfolding tokenFields_def
    by (rule sorted_filter) (rule viewOrder_sorted [OF assms(2,3)])
  show "filter (\<lambda>x. viewIndex metas k = viewIndex metas x) (tokenFields rcd fs metas)
      = filter (\<lambda>x. viewIndex metas k = viewIndex metas x) (filter ?tok fs)"
    if "k \<in> set (tokenFields rcd fs metas)" for k
  proof (cases "k \<in> metaId ` set metas")
    case True
    then have "(\<lambda>x. viewIndex metas k = viewIndex metas x) = (\<lambda>x. k = x)"
      using viewIndex_eq_iff [OF assms(3), of k] by auto
    then show ?thesis
      using filter_eq_mset [OF ms, of k] by simp
  next
    case False
    then have eq: "(\<lambda>x. viewIndex metas k = viewIndex metas x) = ?hidden"
      using viewIndex_eq_iff [OF assms(3), of k] by auto
    have "filter ?hidden (filter (\<lambda>f. f \<in> set fs) (map metaId metas)) = []"
      by (auto simp: filter_empty_conv)
    moreover have "filter ?hidden ?B = ?B" by simp
    ultimately have "filter ?hidden (viewOrder metas fs) = ?B"
      by (simp add: viewOrder_def)
    then have "filter ?tok (filter ?hidden (viewOrder metas fs)) = filter ?tok ?B"
      by (rule arg_cong)
    then have "filter ?hidden (tokenFields rcd fs metas) = filter ?tok ?B"
      unfolding tokenFields_def by (simp only: filter_swap [of ?hidden ?tok])
    moreover have "filter ?hidden (filter ?tok fs) = filter ?tok ?B"
      by (rule filter_swap)
    ultimately show ?thesis unfolding eq by simp
  qed
qed

lemma extract_entries:
  assumes "distinct fs" and "distinct (map metaId metas)"
    and "length metas \<le> MAX_SAFE_INTEGER"
  shows "extractParametersFromRecord rcd fs metas
       = map (entryOf rcd metas) (tokenFields rcd fs metas)"
proof -
  have "(\<lambda>f. order (entryOf rcd metas f)) = viewIndex metas"
    by (simp add: entryOf_def)
  then show ?thesis
    using sort_tokenFields [OF assms, of rcd]
    unfolding extractParametersFromRecord_def map_filter_entries sort_key_map
    by simp
qed

lemma mset_map_enat_eq: "mset (map enat xs) = mset (map enat ys) \<longleftrightarrow> mset xs = mset ys"
proof
  assume "mset (map enat xs) = mset (map enat ys)"
  then have "image_mset the_enat (mset (map enat xs)) = image_mset the_enat (mset (map enat ys))"
    by simp
  then show "mset xs = mset ys"
    by (simp add: multiset.map_comp comp_def)
next
  assume "mset xs = mset ys"
  then show "mset (map enat xs) = mset (map enat ys)" by simp
qed

lemma tokenFields_subset: "set (tokenFields rcd fs metas) \<subseteq> set fs"
  by (auto simp: tokenFields_def viewOrder_def)

lemma entry_mset:
  assumes "\<forall>n\<in>set (tokensOf rcd f). n \<le> 2 ^ 53"
  shows "parameters (entryOf rcd metas f) = map enat (sort (tokensOf rcd f))"
  by (simp add: entryOf_def map_toDouble_exact [OF assms] sort_map_enat)

lemma inconsistent_entries:
  assumes "\<forall>f\<in>set fs. \<forall>n\<in>set (tokensOf rcd f). n \<le> 2 ^ 53"
  shows "inconsistent sel (map (entryOf rcd metas) (tokenFields rcd fs metas))
       \<longleftrightarrow> inconsistentRecord sel fs metas rcd"
proof (cases "tokenFields rcd fs metas")
  case Nil
  then show ?thesis by (simp add: inconsistent_def inconsistentRecord_def)
next
  case (Cons b others)
  have sub: "set (b # others) \<subseteq> set fs"
    using tokenFields_subset [of rcd fs metas] Cons by simp
  have par: "mset (parameters (entryOf rcd metas f)) = mset (map enat (tokensOf rcd f))"
    if "f \<in> set (b # others)" for f
  proof -
    from that sub assms have "\<forall>n\<in>set (tokensOf rcd f). n \<le> 2 ^ 53" by blast
    then show ?thesis by (simp add: entry_mset)
  qed
  have "mset (parameters (entryOf rcd metas f)) \<noteq> mset (parameters (entryOf rcd metas b))
      \<longleftrightarrow> mset (tokensOf rcd f) \<noteq> mset (tokensOf rcd b)"
    if "f \<in> set others" for f
    using par [of f] par [of b] that mset_map_enat_eq [of "tokensOf rcd f" "tokensOf rcd b"]
    by simp
  then show ?thesis
    by (auto simp: inconsistent_def inconsistentRecord_def Cons entryOf_def)
qed

lemma report_entries:
  assumes "\<forall>f\<in>set fs. \<forall>n\<in>set (tokensOf rcd f). n \<le> 2 ^ 53"
  shows "differences (reportOf sel m0 rcd
            (map (entryOf rcd metas) (tokenFields rcd fs metas)))
       = tokenLists sel fs metas rcd"
proof -
  have "\<forall>f\<in>set (tokenFields rcd fs metas).
      parameters (entryOf rcd metas f) = map enat (sort (tokensOf rcd f))"
    using tokenFields_subset [of rcd fs metas] assms entry_mset by blast
  moreover have "\<forall>f. fieldName (entryOf rcd metas f) = displayName metas f
      \<and> fieldId (entryOf rcd metas f) = f"
    by (simp add: entryOf_def)
  ultimately show ?thesis
    by (simp add: reportOf_def tokenLists_def filter_map comp_def)
qed

lemma expected_reported:
  assumes "distinct fs" and "distinct (map metaId metas)"
    and "length metas \<le> MAX_SAFE_INTEGER"
    and "exactTokens fs records"
  shows "map (\<lambda>c. (recordId c, differences c)) (expectedResult sel fs metas m0 records)
       = reportedRecords sel fs metas records"
  using assms(4)
proof (induction records)
  case Nil
  then show ?case by (simp add: expectedResult_def reportedRecords_def map_filter_simps)
next
  case (Cons r records)
  have ex: "\<forall>f\<in>set fs. \<forall>n\<in>set (tokensOf r f). n \<le> 2 ^ 53"
    using Cons.prems by (simp add: exactTokens_def)
  have rest: "exactTokens fs records"
    using Cons.prems by (simp add: exactTokens_def)
  have IH: "map (\<lambda>c. (recordId c, differences c)) (expectedResult sel fs metas m0 records)
       = reportedRecords sel fs metas records"
    by (rule Cons.IH [OF rest])
  have e: "extractParametersFromRecord r fs metas
      = map (entryOf r metas) (tokenFields r fs metas)"
    by (rule extract_entries [OF assms(1-3)])
  have i: "inconsistent sel (extractParametersFromRecord r fs metas)
      \<longleftrightarrow> inconsistentRecord sel fs metas r"
    unfolding e by (rule inconsistent_entries [OF ex])
  have d: "differences (reportOf sel m0 r (extractParametersFromRecord r fs metas))
      = tokenLists sel fs metas r"
    unfolding e by (rule report_entries [OF ex])
  have rid: "recordId (reportOf sel m0 r (extractParametersFromRecord r fs metas)) = hostRecordId r"
    by (simp add: reportOf_def)
  have "expectedResult sel fs metas m0 (r # records)
      = (if inconsistentRecord sel fs metas r
         then [reportOf sel m0 r (extractParametersFromRecord r fs metas)] else [])
        @ expectedResult sel fs metas m0 records"
    by (simp add: expectedResult_def map_filter_simps i)
  moreover have "reportedRecords sel fs metas (r # records)
      = (if inconsistentRecord sel fs metas r then [(hostRecordId r, tokenLists sel fs metas r)] else [])
        @ reportedRecords sel fs metas records"
    by (simp add: reportedRecords_def)
  ultimately show ?case
    using IH d rid by simp
qed

lemma fetchRecords_pages:
  assumes "list_all (\<lambda>pg. truthy (snd pg)) pages" and "\<not> truthy token"
  shows "fetchRecords (map Inr pages @ Inr (lastPage, token) # rest) acc
       = Some (Inr (acc @ concat (map fst pages) @ lastPage))"
  using assms(1)
proof (induction pages arbitrary: acc)
  case Nil
  then show ?case using assms(2) by simp
next
  case (Cons pg pages)
  obtain rs tok where pg: "pg = (rs, tok)" by (cases pg)
  with Cons.prems have t: "truthy tok" and rest: "list_all (\<lambda>pg. truthy (snd pg)) pages"
    by simp_all
  show ?case
    using Cons.IH [OF rest, of "acc @ rs"] t by (simp add: pg)
qed

lemma servesTable_answers:
  assumes "servesTable h fs metas records"
  shows "hostAnswers h fs metas records"
proof -
  from assms obtain pages lastPage token rest where
    g: "getRecords h = map Inr pages @ Inr (lastPage, token) # rest"
    and p: "list_all (\<lambda>pg. truthy (snd pg)) pages" and t: "\<not> truthy token"
    and r: "records = concat (map fst pages) @ lastPage"
    unfolding servesTable_def by blast
  have "fetchRecords (getRecords h) [] = Some (Inr records)"
    unfolding g r using fetchRecords_pages [OF p t, of lastPage rest "[]"] by simp
  with assms show ?thesis
    by (simp add: servesTable_def hostAnswers_def)
qed

section \<open>The example table\<close>

lemmas extract_simps = extractParametersFromRecord_def paramInfoOf_def extractParameters_def
  findMeta_def indexOfMeta_def isDigit_def stripBraces_def parseInt_small decimalValue_def
  digitVal_def map_filter_simps numeral_eq_enat one_enat_def

lemma exampleHost_answers:
  "hostAnswers exampleHost [''idx'', ''fA'', ''fB''] exampleMetas exampleRecords"
  by (simp add: hostAnswers_def exampleHost_def truthy_def)

lemma exampleRecords_nonempty: "exampleRecords \<noteq> []"
  by (simp add: exampleRecords_def)

lemmas token_simps = tokensOf_def tokenAt_Cons isDigit_def decimalValue_def digitVal_def

lemma pagedHost_serves: "servesTable pagedHost pagedFields exampleMetas pagedRecords"
  unfolding servesTable_def
proof (intro conjI exI)
  show "getRecords pagedHost
      = map Inr [([pagedRecord ''q1'' ''{1}'' ''{2}'' ''none'',
                   pagedRecord ''q2'' ''{2}{1}'' ''{1}{2}'' ''{1}{2}''], Some ''p2'')]
        @ Inr ([pagedRecord ''q3'' ''{7}'' ''{7}'' ''{8}''], None) # []"
    by (simp add: pagedHost_def)
qed (simp_all add: pagedHost_def pagedRecords_def truthy_def)

lemma paged_wellFormed: "wellFormedTable pagedFields exampleMetas"
  by (simp add: wellFormedTable_def pagedFields_def exampleMetas_def MAX_SAFE_INTEGER_def)

lemma paged_exact: "exactTokens pagedFields pagedRecords"
  by (simp add: exactTokens_def pagedFields_def pagedRecords_def pagedRecord_def token_simps)

lemma paged_nonempty: "pagedRecords \<noteq> []"
  by (simp add: pagedRecords_def)

lemma paged_reported:
  "reportedRecords [''fB'', ''fH''] pagedFields exampleMetas pagedRecords
     = [(''q1'', [(''B'', [enat 2])]), (''q3'', [(''B'', [enat 7]), (''fH'', [enat 8])])]"
  by (simp add: reportedRecords_def inconsistentRecord_def tokenLists_def tokenFields_def
      viewOrder_def displayName_def pagedFields_def pagedRecords_def pagedRecord_def
      exampleMetas_def token_simps)

lemma pagedHost_run:
  "compareAllRecords pagedHost [''fB'', ''fH''] exampleState
     = Some \<lparr>comparisons =
               [\<lparr>recordId = ''q1'', recordName = CellText ''q1'', differences = [(''B'', [enat 2])]\<rparr>,
                \<lparr>recordId = ''q3'', recordName = CellText ''q3'',
                  differences = [(''B'', [enat 7]), (''fH'', [enat 8])]\<rparr>],
             isComparing = False, floatingMessage = MsgDone 2\<rparr>"
  by (simp add: compareAllRecords_def tryCompare_def pagedHost_def truthy_def pagedFields_def
      pagedRecord_def exampleMetas_def exampleState_def Let_def extract_simps
      allFieldParams_def recordNameOf_def MAX_SAFE_INTEGER_def)

lemma toDouble_large: "toDouble 9007199254740993 = enat 9007199254740992"
  by (simp add: toDouble_def bitLength.simps Let_def)

lemma toDouble_examples:
  "toDouble 9007199254740995 = enat 9007199254740996"
  "toDouble (10 ^ 23) = enat 99999999999999991611392"
  by (simp_all add: toDouble_def bitLength.simps Let_def)

lemma large_inconsistent:
  "inconsistentRecord [''fA'', ''fB''] [''idx'', ''fA'', ''fB''] exampleMetas largeRecord"
  by (simp add: inconsistentRecord_def tokenFields_def viewOrder_def largeRecord_def
      exampleRecord_def exampleMetas_def token_simps)

lemma largeHost_serves: "servesTable largeHost [''idx'', ''fA'', ''fB''] exampleMetas [largeRecord]"
  unfolding servesTable_def
proof (intro conjI exI)
  show "getRecords largeHost = map Inr [] @ Inr ([largeRecord], None) # []"
    by (simp add: largeHost_def)
qed (simp_all add: largeHost_def truthy_def)

lemma large_params:
  "extractParametersFromRecord largeRecord [''idx'', ''fA'', ''fB''] exampleMetas
     = [\<lparr>fieldName = ''A'', fieldId = ''fA'', parameters = [enat 9007199254740992], order = 1\<rparr>,
        \<lparr>fieldName = ''B'', fieldId = ''fB'', parameters = [enat 9007199254740992], order = 2\<rparr>]"
  by (simp add: extractParametersFromRecord_def paramInfoOf_def extractParameters_def
      findMeta_def indexOfMeta_def isDigit_def stripBraces_def parseInt_def decimalValue_def
      digitVal_def map_filter_simps toDouble_large toDouble_exact largeRecord_def
      exampleRecord_def exampleMetas_def)

lemma largeHost_run:
  "compareAllRecords largeHost [''fA'', ''fB''] exampleState
     = Some \<lparr>comparisons = [], isComparing = False, floatingMessage = MsgDone 0\<rparr>"
  by (simp add: compareAllRecords_def tryCompare_def largeHost_def truthy_def large_params
      exampleState_def Let_def)

section \<open>Claims about the comparison\<close>

text \<open>
  Claim C6, as it is written, fails on tokens above \<open>2^53\<close>: a record whose two fields
  hold different tokens with the same number value is inconsistent, and a run over a
  table that holds it reports nothing.
\<close>

theorem rounded_tokens_hide_a_discrepancy:
  "servesTable largeHost [''idx'', ''fA'', ''fB''] exampleMetas [largeRecord]
   \<and> tokensOf largeRecord ''fA'' = [9007199254740993]
   \<and> tokensOf largeRecord ''fB'' = [9007199254740992]
   \<and> inconsistentRecord [''fA'', ''fB''] [''idx'', ''fA'', ''fB''] exampleMetas largeRecord
   \<and> compareAllRecords largeHost [''fA'', ''fB''] exampleState
       = Some \<lparr>comparisons = [], isComparing = False, floatingMessage = MsgDone 0\<rparr>"
proof (intro conjI)
  show "tokensOf largeRecord ''fA'' = [9007199254740993]"
    by (simp add: largeRecord_def exampleRecord_def token_simps)
  show "tokensOf largeRecord ''fB'' = [9007199254740992]"
    by (simp add: largeRecord_def exampleRecord_def token_simps)
qed (rule largeHost_serves large_inconsistent largeHost_run)+

text \<open>
  Claim C6, amended. Take a table with at least one record, whose tokens are all at most
  \<open>2^53\<close>, and a host that answers every call of the run. The run publishes the
  inconsistent records of the table, in the order of the table, and no others: a record
  is reported if and only if it has at least two token-bearing fields and a selected
  field after the baseline, which is the first token-bearing field in view order, whose
  multiset of tokens differs from the baseline's. The entry of a reported record carries,
  for every selected token-bearing field of the record, all the tokens of the field in
  ascending order.
\<close>

theorem run_reports_inconsistent_records:
  assumes "servesTable h fieldList fieldMetaList records" and "records \<noteq> []"
    and "wellFormedTable fieldList fieldMetaList"
    and "exactTokens fieldList records"
  shows "\<exists>cs. compareAllRecords h selectedFields st
           = Some (st\<lparr>comparisons := cs, floatingMessage := MsgDone (length cs),
                      isComparing := False\<rparr>)
       \<and> map (\<lambda>c. (recordId c, differences c)) cs
           = reportedRecords selectedFields fieldList fieldMetaList records"
proof -
  from assms(3) obtain m0 ms where metas: "fieldMetaList = m0 # ms"
    by (cases fieldMetaList) (simp_all add: wellFormedTable_def)
  have wf: "distinct fieldList" "distinct (map metaId fieldMetaList)"
    "length fieldMetaList \<le> MAX_SAFE_INTEGER"
    using assms(3) by (simp_all add: wellFormedTable_def)
  let ?cs = "expectedResult selectedFields fieldList fieldMetaList m0 records"
  have "compareAllRecords h selectedFields st
      = Some (st\<lparr>comparisons := ?cs, floatingMessage := MsgDone (length ?cs),
                 isComparing := False\<rparr>)"
    using servesTable_answers [OF assms(1)] assms(2)
    by (simp add: compareAllRecords_def tryCompare_answers metas compareRecords_expected)
  moreover have "map (\<lambda>c. (recordId c, differences c)) ?cs
      = reportedRecords selectedFields fieldList fieldMetaList records"
    by (rule expected_reported [OF wf assms(4)])
  ultimately show ?thesis by blast
qed

theorem run_reports_inconsistent_records_witness:
  "servesTable pagedHost pagedFields exampleMetas pagedRecords
   \<and> pagedRecords \<noteq> []
   \<and> wellFormedTable pagedFields exampleMetas
   \<and> exactTokens pagedFields pagedRecords
   \<and> (\<exists>cs. compareAllRecords pagedHost [''fB'', ''fH''] exampleState
              = Some (exampleState\<lparr>comparisons := cs, floatingMessage := MsgDone (length cs),
                                   isComparing := False\<rparr>)
          \<and> map (\<lambda>c. (recordId c, differences c)) cs
              = [(''q1'', [(''B'', [enat 2])]), (''q3'', [(''B'', [enat 7]), (''fH'', [enat 8])])])"
proof -
  have "\<exists>cs. compareAllRecords pagedHost [''fB'', ''fH''] exampleState
              = Some (exampleState\<lparr>comparisons := cs, floatingMessage := MsgDone (length cs),
                                   isComparing := False\<rparr>)
          \<and> map (\<lambda>c. (recordId c, differences c)) cs
              = [(''q1'', [(''B'', [enat 2])]), (''q3'', [(''B'', [enat 7]), (''fH'', [enat 8])])]"
    using run_reports_inconsistent_records
      [OF pagedHost_serves paged_nonempty paged_wellFormed paged_exact,
       of "[''fB'', ''fH'']" exampleState]
    unfolding paged_reported .
  then show ?thesis
    by (intro conjI pagedHost_serves paged_nonempty paged_wellFormed paged_exact)
qed

text \<open>
  A run over a table without records returns early: it reports that there is nothing to
  compare and leaves the comparisons of the run before as they are.
\<close>

lemma empty_table_keeps_published_result:
  assumes "servesTable h fieldList fieldMetaList []"
  shows "compareAllRecords h selectedFields st
       = Some (st\<lparr>floatingMessage := MsgNoRecords, isComparing := False\<rparr>)"
  using servesTable_answers [OF assms]
  by (simp add: compareAllRecords_def tryCompare_answers)

text \<open>
  Claim C8. A field whose tokens are a permutation of the baseline's is no discrepancy:
  the comparison of a record has no difference for it, and finds the same differences
  with the field as without it.
\<close>

theorem permuted_field_is_no_discrepancy:
  assumes "mset (parameters p) = mset (parameters base)"
  shows "(fieldName p, parameters base, parameters p)
           \<notin> set (findDifferences selectedFields (base # before @ p # after))
       \<and> findDifferences selectedFields (base # before @ p # after)
           = findDifferences selectedFields (base # before @ after)"
proof -
  have "sort (parameters base) = sort (parameters p)"
    using assms sort_neq_iff [of "parameters base" "parameters p"] by auto
  moreover have "\<And>q. sort (parameters base) \<noteq> sort (parameters q) \<Longrightarrow> parameters q \<noteq> parameters p"
    using calculation by auto
  ultimately show ?thesis by auto
qed

theorem permuted_field_is_no_discrepancy_witness:
  "mset (parameters \<lparr>fieldName = ''B'', fieldId = ''fB'', parameters = [2, 1], order = 2\<rparr>)
     = mset (parameters \<lparr>fieldName = ''A'', fieldId = ''fA'', parameters = [1, 2], order = 1\<rparr>)
   \<and> findDifferences [''fA'', ''fB'']
        [\<lparr>fieldName = ''A'', fieldId = ''fA'', parameters = [1, 2], order = 1\<rparr>,
         \<lparr>fieldName = ''B'', fieldId = ''fB'', parameters = [2, 1], order = 2\<rparr>] = []"
proof -
  have m: "mset (parameters \<lparr>fieldName = ''B'', fieldId = ''fB'', parameters = [2, 1], order = 2\<rparr>)
     = mset (parameters \<lparr>fieldName = ''A'', fieldId = ''fA'', parameters = [1, 2], order = 1\<rparr>)"
    by simp
  from permuted_field_is_no_discrepancy [OF m, of "[''fA'', ''fB'']" "[]" "[]"] m
  show ?thesis by simp
qed

text \<open>
  Claim C9. When a call of the host fails during a run, the run ends with the failure as
  its message and the published comparisons are the ones from before the run; and
  whenever a run does replace the published comparisons, it replaces them by the result
  of comparing all the records the host returned.
\<close>

theorem host_failure_keeps_published_result:
  "(hostFails h e \<longrightarrow>
      compareAllRecords h selectedFields st
        = Some (st\<lparr>floatingMessage := MsgError e, isComparing := False\<rparr>))
   \<and> (\<forall>st'. compareAllRecords h selectedFields st = Some st' \<longrightarrow>
         comparisons st' = comparisons st
         \<or> (\<exists>fieldList fieldMetaList records. hostAnswers h fieldList fieldMetaList records
               \<and> compareRecords selectedFields fieldList fieldMetaList records []
                   = Inr (comparisons st')))"
proof (intro conjI impI allI)
  assume "hostFails h e"
  then show "compareAllRecords h selectedFields st
        = Some (st\<lparr>floatingMessage := MsgError e, isComparing := False\<rparr>)"
    by (simp add: compareAllRecords_def tryCompare_fails)
next
  fix st'
  assume run: "compareAllRecords h selectedFields st = Some st'"
  show "comparisons st' = comparisons st
         \<or> (\<exists>fieldList fieldMetaList records. hostAnswers h fieldList fieldMetaList records
               \<and> compareRecords selectedFields fieldList fieldMetaList records []
                   = Inr (comparisons st'))"
  proof (cases "tryCompare h selectedFields")
    case None
    with run show ?thesis by (simp add: compareAllRecords_def)
  next
    case (Some res)
    show ?thesis
    proof (cases res)
      case (Inl err)
      with Some run show ?thesis by (auto simp: compareAllRecords_def)
    next
      case (Inr out)
      show ?thesis
      proof (cases out)
        case None
        with Inr Some run show ?thesis by (auto simp: compareAllRecords_def)
      next
        case (Some cs)
        with Inr \<open>tryCompare h selectedFields = Some res\<close>
        have t: "tryCompare h selectedFields = Some (Inr (Some cs))" by simp
        with run have "comparisons st' = cs" by (auto simp: compareAllRecords_def)
        with tryCompare_result [OF t] show ?thesis by blast
      qed
    qed
  qed
qed

lemma failingHost_fails: "hostFails failingHost (HostFailure ''rate limit'')"
proof -
  have "pagesFail (getRecords failingHost) (HostFailure ''rate limit'')"
    unfolding pagesFail_def failingHost_def
    by (intro exI [of _ "[(exampleRecords, Some ''page2'')]"] exI [of _ "[]"])
       (simp add: truthy_def)
  then show ?thesis
    by (simp add: hostFails_def failingHost_def)
qed

theorem host_failure_keeps_published_result_witness:
  "hostFails failingHost (HostFailure ''rate limit'')
   \<and> compareAllRecords failingHost [''fA'', ''fB''] exampleState
       = Some \<lparr>comparisons = comparisons exampleState, isComparing = False,
               floatingMessage = MsgError (HostFailure ''rate limit'')\<rparr>"
  using host_failure_keeps_published_result
    [of failingHost "HostFailure ''rate limit''" "[''fA'', ''fB'']" exampleState]
    failingHost_fails
  by (simp add: exampleState_def)

text \<open>
  Claim C10. With no field selected, a run over a table that has records publishes the
  empty list of comparisons.
\<close>

theorem empty_selection_reports_nothing:
  assumes "hostAnswers h fieldList fieldMetaList records" and "records \<noteq> []"
  shows "compareAllRecords h [] st =
     Some (st\<lparr>comparisons := [], floatingMessage := MsgDone 0, isComparing := False\<rparr>)"
  using assms
  by (simp add: compareAllRecords_def tryCompare_answers compareRecords_none_selected)

theorem empty_selection_reports_nothing_witness:
  "hostAnswers exampleHost [''idx'', ''fA'', ''fB''] exampleMetas exampleRecords
   \<and> exampleRecords \<noteq> []
   \<and> compareAllRecords exampleHost [] exampleState =
       Some \<lparr>comparisons = [], isComparing = False, floatingMessage = MsgDone 0\<rparr>"
  using empty_selection_reports_nothing [OF exampleHost_answers exampleRecords_nonempty, of exampleState]
    exampleHost_answers exampleRecords_nonempty
  by (simp add: exampleState_def)

section \<open>Claims about the extractor\<close>

text \<open>
  Claim C7, as it is written, fails on a token above \<open>2^53\<close>: the extractor returns the
  number value of the token, which is another integer.
\<close>

theorem large_token_is_rounded:
  "occurrences ''{9007199254740993}'' = [9007199254740993]
   \<and> extractParameters ''{9007199254740993}'' = Some [enat 9007199254740992]"
proof -
  have occ: "occurrences ''{9007199254740993}'' = [9007199254740993]"
    by (simp add: tokenAt_Cons isDigit_def decimalValue_def digitVal_def)
  have "toDouble 9007199254740993 = enat 9007199254740992"
    by (simp add: toDouble_def bitLength.simps Let_def)
  then have "extractParameters ''{9007199254740993}'' = Some [enat 9007199254740992]"
    unfolding extractParameters_occurrences occ by simp
  with occ show ?thesis by (rule conjI)
qed

text \<open>
  Claim C7, amended. The extractor returns the number values of the integers of the
  \<open>{digits}\<close> patterns of the text, sorted in ascending order with duplicates kept (and no
  entry when there is none), so two texts with the same tokens in any order give the same
  result. When every token of the text is at most \<open>2^53\<close>, these are the tokens
  themselves, sorted; so it is for a text written as such tokens with other text between
  them.
\<close>

theorem extractor_returns_sorted_tokens:
  "(occurrences str = [] \<longrightarrow> extractParameters str = None)
   \<and> (occurrences str \<noteq> [] \<longrightarrow>
        (\<exists>ns. extractParameters str = Some ns \<and> sorted ns
           \<and> mset ns = image_mset toDouble (mset (occurrences str))))
   \<and> (occurrences str \<noteq> [] \<and> (\<forall>n\<in>set (occurrences str). n \<le> 2 ^ 53) \<longrightarrow>
        extractParameters str = Some (map enat (sort (occurrences str))))
   \<and> (mset (occurrences str') = mset (occurrences str) \<longrightarrow>
        extractParameters str' = extractParameters str)
   \<and> ((\<forall>part\<in>set parts. CHR ''{'' \<notin> set (fst part) \<and> snd part \<le> 2 ^ 53)
         \<and> CHR ''{'' \<notin> set tail \<longrightarrow>
        extractParameters (renderTokens parts tail)
          = (if parts = [] then None else Some (map enat (sort (map snd parts)))))"
proof (intro conjI impI)
  show "extractParameters str = None" if "occurrences str = []"
    using that by (simp add: extractParameters_occurrences)
next
  assume "occurrences str \<noteq> []"
  then have "extractParameters str = Some (sort (map toDouble (occurrences str)))"
    by (simp add: extractParameters_occurrences)
  moreover have "sorted (sort (map toDouble (occurrences str)))" by simp
  moreover have "mset (sort (map toDouble (occurrences str)))
      = image_mset toDouble (mset (occurrences str))" by simp
  ultimately show "\<exists>ns. extractParameters str = Some ns \<and> sorted ns
      \<and> mset ns = image_mset toDouble (mset (occurrences str))"
    by blast
next
  assume "occurrences str \<noteq> [] \<and> (\<forall>n\<in>set (occurrences str). n \<le> 2 ^ 53)"
  then have ne: "occurrences str \<noteq> []" and ex: "\<forall>n\<in>set (occurrences str). n \<le> 2 ^ 53"
    by simp_all
  show "extractParameters str = Some (map enat (sort (occurrences str)))"
    using extractParameters_exact [OF ex] ne by simp
next
  assume m: "mset (occurrences str') = mset (occurrences str)"
  have "mset (map toDouble (occurrences str')) = mset (map toDouble (occurrences str))"
    using m by simp
  then have "sort (map toDouble (occurrences str')) = sort (map toDouble (occurrences str))"
    using sort_neq_iff [of "map toDouble (occurrences str')" "map toDouble (occurrences str)"]
    by blast
  moreover have "(occurrences str' = []) = (occurrences str = [])"
    using m by (metis mset_zero_iff)
  ultimately show "extractParameters str' = extractParameters str"
    by (simp add: extractParameters_occurrences)
next
  assume a: "(\<forall>part\<in>set parts. CHR ''{'' \<notin> set (fst part) \<and> snd part \<le> 2 ^ 53)
      \<and> CHR ''{'' \<notin> set tail"
  then have 1: "\<forall>part\<in>set parts. CHR ''{'' \<notin> set (fst part)"
    and 2: "CHR ''{'' \<notin> set tail" and 3: "\<forall>part\<in>set parts. snd part \<le> 2 ^ 53"
    by simp_all
  show "extractParameters (renderTokens parts tail)
      = (if parts = [] then None else Some (map enat (sort (map snd parts))))"
    by (rule extract_renderTokens [OF 1 2 3])
qed

lemma occurrences_312: "occurrences ''{3}{1}{2}'' = [3, 1, 2]"
  by (simp add: tokenAt_Cons isDigit_def decimalValue_def digitVal_def)

lemma occurrences_231: "occurrences ''{2}{3}{1}'' = [2, 3, 1]"
  by (simp add: tokenAt_Cons isDigit_def decimalValue_def digitVal_def)

theorem extractor_returns_sorted_tokens_witness:
  "occurrences ''{3}{1}{2}'' = [3, 1, 2]
   \<and> list_all (\<lambda>n. n \<le> 2 ^ 53) (occurrences ''{3}{1}{2}'')
   \<and> extractParameters ''{3}{1}{2}'' = Some [enat 1, enat 2, enat 3]
   \<and> mset (occurrences ''{2}{3}{1}'') = mset (occurrences ''{3}{1}{2}'')
   \<and> extractParameters ''{2}{3}{1}'' = Some [enat 1, enat 2, enat 3]
   \<and> extractParameters (renderTokens [(''a'', 3), (''b }'', 1), ([], 2)] ''z'')
       = Some [enat 1, enat 2, enat 3]"
proof -
  have m: "mset (occurrences ''{2}{3}{1}'') = mset (occurrences ''{3}{1}{2}'')"
    unfolding occurrences_312 occurrences_231 by simp
  have ex: "\<forall>n\<in>set (occurrences ''{3}{1}{2}''). n \<le> 2 ^ 53"
    unfolding occurrences_312 by simp
  note inst = extractor_returns_sorted_tokens
    [of "''{3}{1}{2}''" "''{2}{3}{1}''" "[(''a'', 3), (''b }'', 1), ([], 2)]" "''z''"]
  have "occurrences ''{3}{1}{2}'' \<noteq> []"
    unfolding occurrences_312 by simp
  with inst ex have "extractParameters ''{3}{1}{2}''
      = Some (map enat (sort (occurrences ''{3}{1}{2}'')))"
    by blast
  then have e: "extractParameters ''{3}{1}{2}'' = Some [enat 1, enat 2, enat 3]"
    unfolding occurrences_312 by simp
  have "extractParameters ''{2}{3}{1}'' = extractParameters ''{3}{1}{2}''"
    using inst m by blast
  then have d: "extractParameters ''{2}{3}{1}'' = Some [enat 1, enat 2, enat 3]"
    by (simp only: e)
  have pre: "(\<forall>part\<in>set [(''a'', 3::nat), (''b }'', 1), ([], 2)].
        CHR ''{'' \<notin> set (fst part) \<and> snd part \<le> 2 ^ 53)
      \<and> CHR ''{'' \<notin> set ''z''"
    by simp
  have "extractParameters (renderTokens [(''a'', 3), (''b }'', 1), ([], 2)] ''z'')
      = (if [(''a'', 3::nat), (''b }'', 1), ([], 2)] = [] then None
         else Some (map enat (sort (map snd [(''a'', 3::nat), (''b }'', 1), ([], 2)]))))"
    using inst pre by blast
  then have r: "extractParameters (renderTokens [(''a'', 3), (''b }'', 1), ([], 2)] ''z'')
      = Some [enat 1, enat 2, enat 3]"
    by simp
  have ex': "list_all (\<lambda>n. n \<le> 2 ^ 53) (occurrences ''{3}{1}{2}'')"
    using ex by (simp only: list_all_iff)
  show ?thesis
    by (intro conjI occurrences_312 ex' e m d r)
qed

section \<open>Substitution of tokens\<close>

lemma plain_digit: "isDigit c \<Longrightarrow> plain c"
  using isDigit_not_brace by (simp add: plain_def)

lemma plain_digits: "list_all isDigit s \<Longrightarrow> list_all plain s"
  by (induction s) (simp_all add: plain_digit)

lemma plain_take: "list_all plain s \<Longrightarrow> list_all plain (take n s)"
  by (auto simp: list_all_iff dest: in_set_takeD)

lemma plain_drop: "list_all plain s \<Longrightarrow> list_all plain (drop n s)"
  by (auto simp: list_all_iff dest: in_set_dropD)

lemma plain_showPositive:
  assumes "list_all plain s"
  shows "list_all plain (showPositive s e)"
proof -
  have z: "\<And>n. list_all plain (replicate n CHR ''0'')"
    by (simp add: list_all_iff plain_def)
  have sn: "\<And>n. list_all plain (showNat n)"
    by (simp add: plain_digits showNat_digits)
  have c: "plain CHR ''.''" "plain CHR ''e''" "plain CHR ''+''" "plain CHR ''-''" "plain CHR ''0''"
    by (simp_all add: plain_def)
  show ?thesis
    unfolding showPositive_def Let_def
    using assms z sn c by (simp add: plain_take plain_drop)
qed

lemma plain_numToString: "list_all plain (numToString v)"
proof (cases v)
  case (Dec m e)
  have "list_all plain (showPositive (showNat (nat \<bar>m\<bar>)) e)"
    by (intro plain_showPositive plain_digits showNat_digits)
  then show ?thesis
    using Dec by (simp add: numToString_def plain_def)
qed (simp_all add: numToString_def plain_def)

lemma mapTokens_skip:
  "CHR ''{'' \<notin> set p \<Longrightarrow> mapTokens f (p @ rest) = p @ mapTokens f rest"
proof (induction p)
  case Nil
  then show ?case by simp
next
  case (Cons a p)
  then have "a \<noteq> CHR ''{''" by auto
  then have "mapTokens f (a # p @ rest) = a # mapTokens f (p @ rest)"
    by (simp add: mapTokens.simps(2))
  with Cons show ?case by simp
qed

lemma replaceParam_skip:
  "CHR ''{'' \<notin> set p \<Longrightarrow> replaceParam k rep (p @ rest) = p @ replaceParam k rep rest"
proof (induction p)
  case Nil
  then show ?case by simp
next
  case (Cons a p)
  then have "a \<noteq> CHR ''{''" by auto
  then have "replaceParam k rep (a # p @ rest) = a # replaceParam k rep (p @ rest)"
    by simp
  with Cons show ?case by simp
qed

lemma tokenHead_Some:
  assumes "tokenHead cs = Some (ds, rest)"
  shows "cs = ds @ CHR ''}'' # rest" and "ds \<noteq> []" and "list_all isDigit ds"
proof -
  from assms have ds: "ds = takeWhile isDigit cs" and ne: "ds \<noteq> []"
    and t: "take 1 (dropWhile isDigit cs) = ''}''" and r: "rest = drop 1 (dropWhile isDigit cs)"
    by (auto simp: tokenHead_def split: if_splits)
  from t r have "dropWhile isDigit cs = CHR ''}'' # rest"
    by (cases "dropWhile isDigit cs") simp_all
  then show "cs = ds @ CHR ''}'' # rest"
    using takeWhile_dropWhile_id [of isDigit cs] ds by simp
  show "ds \<noteq> []" by (rule ne)
  show "list_all isDigit ds"
    unfolding ds by (auto simp: list_all_iff dest: set_takeWhileD)
qed

lemma tokenHead_intro:
  assumes "ds \<noteq> []" and "list_all isDigit ds"
  shows "tokenHead (ds @ CHR ''}'' # rest) = Some (ds, rest)"
proof -
  have nd: "\<not> isDigit CHR ''}''" by (simp add: isDigit_def)
  have "takeWhile isDigit (ds @ CHR ''}'' # rest) = ds"
    using assms(2) nd by (simp add: takeWhile_append2 list_all_iff)
  moreover have "dropWhile isDigit (ds @ CHR ''}'' # rest) = CHR ''}'' # rest"
    using assms(2) nd by (simp add: dropWhile_append2 list_all_iff)
  ultimately show ?thesis using assms(1) by (simp add: tokenHead_def)
qed

lemma mapTokens_brace:
  "mapTokens f (CHR ''{'' # cs) =
     (case tokenHead cs of
        None \<Rightarrow> CHR ''{'' # mapTokens f cs
      | Some (ds, rest) \<Rightarrow> f ds @ mapTokens f rest)"
proof (cases "dropWhile isDigit cs")
  case Nil
  then show ?thesis
    by (simp add: mapTokens.simps(2) tokenHead_def del: dropWhile_eq_Nil_conv)
next
  case (Cons d rest)
  then show ?thesis
    by (simp add: mapTokens.simps(2) tokenHead_def)
qed

lemma mapTokens_other: "c \<noteq> CHR ''{'' \<Longrightarrow> mapTokens f (c # cs) = c # mapTokens f cs"
  by (simp add: mapTokens.simps(2))

lemma replaceParam_brace:
  assumes "k \<noteq> []" and "list_all isDigit k"
  shows "replaceParam k rep (CHR ''{'' # cs) =
     (case tokenHead cs of
        None \<Rightarrow> CHR ''{'' # replaceParam k rep cs
      | Some (ds, rest) \<Rightarrow>
          if ds = k then rep @ replaceParam k rep rest
          else CHR ''{'' # ds @ CHR ''}'' # replaceParam k rep rest)"
proof (cases "tokenHead cs")
  case None
  have "take (Suc (length k)) cs \<noteq> k @ ''}''"
  proof
    assume eq: "take (Suc (length k)) cs = k @ ''}''"
    have "cs = take (Suc (length k)) cs @ drop (Suc (length k)) cs" by simp
    with eq have "cs = k @ CHR ''}'' # drop (Suc (length k)) cs" by simp
    then have "tokenHead cs = Some (k, drop (Suc (length k)) cs)"
      using tokenHead_intro [OF assms] by metis
    with None show False by simp
  qed
  with None show ?thesis by simp
next
  case (Some tr)
  obtain ds rest where tr: "tr = (ds, rest)" by (cases tr)
  note th = tokenHead_Some [OF Some [unfolded tr]]
  show ?thesis
  proof (cases "ds = k")
    case True
    with th(1) have "take (Suc (length k)) cs = k @ ''}''"
      and "drop (Suc (length k)) cs = rest" by simp_all
    with Some tr True show ?thesis by simp
  next
    case False
    have ne: "take (Suc (length k)) cs \<noteq> k @ ''}''"
    proof
      assume eq: "take (Suc (length k)) cs = k @ ''}''"
      have "cs = take (Suc (length k)) cs @ drop (Suc (length k)) cs" by simp
      with eq have "cs = k @ CHR ''}'' # drop (Suc (length k)) cs" by simp
      then have "tokenHead cs = Some (k, drop (Suc (length k)) cs)"
        using tokenHead_intro [OF assms] by metis
      with Some tr False show False by simp
    qed
    have "CHR ''{'' \<notin> set (ds @ ''}'')"
      using digits_no_brace [OF th(3)] by simp
    then have "replaceParam k rep ((ds @ ''}'') @ rest) = (ds @ ''}'') @ replaceParam k rep rest"
      by (rule replaceParam_skip)
    with th(1) have "replaceParam k rep cs = ds @ CHR ''}'' # replaceParam k rep rest"
      by simp
    with ne Some tr False show ?thesis by simp
  qed
qed

lemma replaceParam_mapTokens:
  assumes "k \<noteq> []" and "list_all isDigit k"
  shows "replaceParam k rep str = mapTokens (\<lambda>ds. if ds = k then rep else ''{'' @ ds @ ''}'') str"
proof (induction str rule: length_induct)
  case (1 str)
  show ?case
  proof (cases str)
    case Nil
    then show ?thesis by simp
  next
    case (Cons c cs)
    show ?thesis
    proof (cases "c = CHR ''{''")
      case False
      with 1 Cons show ?thesis by (simp add: mapTokens_other)
    next
      case True
      show ?thesis
      proof (cases "tokenHead cs")
        case None
        with 1 Cons True show ?thesis
          by (simp add: replaceParam_brace [OF assms] mapTokens_brace del: replaceParam.simps)
      next
        case (Some tr)
        obtain ds rest where tr: "tr = (ds, rest)" by (cases tr)
        from tokenHead_Some(1) [OF Some [unfolded tr]] have "length rest < length str"
          using Cons by simp
        with 1 have "replaceParam k rep rest
            = mapTokens (\<lambda>ds. if ds = k then rep else ''{'' @ ds @ ''}'') rest" by blast
        with Some tr Cons True show ?thesis
          by (simp add: replaceParam_brace [OF assms] mapTokens_brace del: replaceParam.simps)
      qed
    qed
  qed
qed

lemma plain_no_brace: "list_all plain x \<Longrightarrow> CHR ''{'' \<notin> set x \<and> CHR ''}'' \<notin> set x"
  by (auto simp: list_all_iff plain_def)

lemma first_split:
  assumes "a \<notin> set xs" and "a \<notin> set ys" and "xs @ a # r = ys @ a # r'"
  shows "xs = ys"
proof -
  have "takeWhile (\<lambda>c. c \<noteq> a) (xs @ a # r) = xs"
    using assms(1) by (subst takeWhile_append2) auto
  moreover have "takeWhile (\<lambda>c. c \<noteq> a) (ys @ a # r') = ys"
    using assms(2) by (subst takeWhile_append2) auto
  ultimately show ?thesis using assms(3) by simp
qed

lemma tokenHead_plain:
  assumes "list_all plain x"
  shows "tokenHead (x @ CHR ''}'' # R) = (if x \<noteq> [] \<and> list_all isDigit x then Some (x, R) else None)"
proof (cases "x \<noteq> [] \<and> list_all isDigit x")
  case True
  then show ?thesis by (simp add: tokenHead_intro)
next
  case False
  have "tokenHead (x @ CHR ''}'' # R) = None"
  proof (rule ccontr)
    assume "tokenHead (x @ CHR ''}'' # R) \<noteq> None"
    then obtain ds rest where s: "tokenHead (x @ CHR ''}'' # R) = Some (ds, rest)" by auto
    note th = tokenHead_Some [OF s]
    have "CHR ''}'' \<notin> set x" using assms plain_no_brace by blast
    moreover have "CHR ''}'' \<notin> set ds" using th(3) digits_no_brace by blast
    ultimately have "x = ds" using th(1) by (rule first_split)
    with th(2,3) False show False by simp
  qed
  with False show ?thesis by simp
qed

lemma mapTokens_braced:
  assumes "list_all plain x"
  shows "mapTokens g (CHR ''{'' # x @ CHR ''}'' # R) =
     (if x \<noteq> [] \<and> list_all isDigit x then g x else CHR ''{'' # x @ ''}'') @ mapTokens g R"
proof (cases "x \<noteq> [] \<and> list_all isDigit x")
  case True
  then show ?thesis
    by (simp add: mapTokens_brace tokenHead_plain [OF assms])
next
  case False
  have "CHR ''{'' \<notin> set (x @ ''}'')"
    using assms plain_no_brace by simp
  then have "mapTokens g ((x @ ''}'') @ R) = (x @ ''}'') @ mapTokens g R"
    by (rule mapTokens_skip)
  then have skip: "mapTokens g (x @ CHR ''}'' # R) = x @ CHR ''}'' # mapTokens g R"
    by simp
  have th: "tokenHead (x @ CHR ''}'' # R) = None"
    unfolding tokenHead_plain [OF assms] using False by (rule if_not_P)
  have rhs: "(if x \<noteq> [] \<and> list_all isDigit x then g x else CHR ''{'' # x @ ''}'')
      = CHR ''{'' # x @ ''}''"
    using False by (rule if_not_P)
  show ?thesis
    unfolding rhs by (simp add: mapTokens_brace th skip)
qed

lemma mapTokens_starts:
  assumes "braced f"
  shows "take 1 (mapTokens f s) = take 1 s"
proof (cases s)
  case Nil
  then show ?thesis by simp
next
  case (Cons c cs)
  show ?thesis
  proof (cases "c = CHR ''{''")
    case False
    with Cons show ?thesis by (simp add: mapTokens_other)
  next
    case True
    show ?thesis
    proof (cases "tokenHead cs")
      case None
      with Cons True show ?thesis by (simp add: mapTokens_brace)
    next
      case (Some tr)
      obtain ds rest where tr: "tr = (ds, rest)" by (cases tr)
      note th = tokenHead_Some [OF Some [unfolded tr]]
      from assms th(2,3) obtain x where "f ds = CHR ''{'' # x @ ''}''"
        unfolding braced_def by blast
      with Cons True Some tr show ?thesis by (simp add: mapTokens_brace)
    qed
  qed
qed

lemma tokenHead_mapTokens_None:
  assumes "braced f" and "tokenHead cs = None"
  shows "tokenHead (mapTokens f cs) = None"
proof -
  let ?ds = "takeWhile isDigit cs" and ?tl = "dropWhile isDigit cs"
  have digs: "list_all isDigit ?ds"
    by (auto simp: list_all_iff dest: set_takeWhileD)
  have "mapTokens f (?ds @ ?tl) = ?ds @ mapTokens f ?tl"
    using digits_no_brace [OF digs] by (intro mapTokens_skip) simp
  then have m: "mapTokens f cs = ?ds @ mapTokens f ?tl" by simp
  have st: "take 1 (mapTokens f ?tl) = take 1 ?tl"
    using assms(1) by (rule mapTokens_starts)
  have nd: "takeWhile isDigit (mapTokens f ?tl) = []"
  proof (cases "mapTokens f ?tl")
    case Nil
    then show ?thesis by simp
  next
    case (Cons a as)
    with st have "?tl \<noteq> []" and "hd ?tl = a"
      by (cases ?tl; simp)+
    then have "\<not> isDigit a" using hd_dropWhile [of isDigit cs] by auto
    with Cons show ?thesis by simp
  qed
  have tw: "takeWhile isDigit (mapTokens f cs) = ?ds"
    unfolding m using digs nd by (simp add: takeWhile_append2 list_all_iff)
  have "dropWhile isDigit (?ds @ mapTokens f ?tl) = dropWhile isDigit (mapTokens f ?tl)"
    using digs by (simp add: dropWhile_append2 list_all_iff)
  also have "\<dots> = mapTokens f ?tl"
    using nd by (metis takeWhile_dropWhile_id append_Nil)
  finally have dw: "dropWhile isDigit (mapTokens f cs) = mapTokens f ?tl"
    unfolding m .
  from assms(2) show ?thesis
    unfolding tokenHead_def tw dw st by (simp split: if_splits)
qed

lemma mapTokens_compose:
  assumes "braced f"
  shows "mapTokens g (mapTokens f str) = mapTokens (\<lambda>ds. mapTokens g (f ds)) str"
proof (induction str rule: length_induct)
  case (1 str)
  show ?case
  proof (cases str)
    case Nil
    then show ?thesis by simp
  next
    case (Cons c cs)
    have IHcs: "mapTokens g (mapTokens f cs) = mapTokens (\<lambda>ds. mapTokens g (f ds)) cs"
      using 1 Cons by simp
    show ?thesis
    proof (cases "c = CHR ''{''")
      case False
      with Cons IHcs show ?thesis by (simp add: mapTokens_other)
    next
      case True
      show ?thesis
      proof (cases "tokenHead cs")
        case None
        then have "tokenHead (mapTokens f cs) = None"
          using assms tokenHead_mapTokens_None by blast
        with None Cons True IHcs show ?thesis by (simp add: mapTokens_brace)
      next
        case (Some tr)
        obtain ds rest where tr: "tr = (ds, rest)" by (cases tr)
        note th = tokenHead_Some [OF Some [unfolded tr]]
        from th(1) have "length rest < length str" using Cons by simp
        with 1 have IH: "mapTokens g (mapTokens f rest) = mapTokens (\<lambda>ds. mapTokens g (f ds)) rest"
          by blast
        from assms th(2,3) obtain x where x: "f ds = CHR ''{'' # x @ ''}''" "list_all plain x"
          unfolding braced_def by blast
        have "mapTokens g (f ds @ mapTokens f rest) = mapTokens g (f ds) @ mapTokens g (mapTokens f rest)"
          using mapTokens_braced [OF x(2), of g "mapTokens f rest"] mapTokens_braced [OF x(2), of g "[]"] x(1)
          by simp
        with Some tr Cons True IH show ?thesis by (simp add: mapTokens_brace)
      qed
    qed
  qed
qed

lemma mapTokens_cong:
  assumes "\<And>ds. ds \<noteq> [] \<Longrightarrow> list_all isDigit ds \<Longrightarrow> f ds = g ds"
  shows "mapTokens f str = mapTokens g str"
proof (induction str rule: length_induct)
  case (1 str)
  show ?case
  proof (cases str)
    case Nil
    then show ?thesis by simp
  next
    case (Cons c cs)
    have IHcs: "mapTokens f cs = mapTokens g cs" using 1 Cons by simp
    show ?thesis
    proof (cases "c = CHR ''{''")
      case False
      with Cons IHcs show ?thesis by (simp add: mapTokens_other)
    next
      case True
      show ?thesis
      proof (cases "tokenHead cs")
        case None
        with Cons True IHcs show ?thesis by (simp add: mapTokens_brace)
      next
        case (Some tr)
        obtain ds rest where tr: "tr = (ds, rest)" by (cases tr)
        note th = tokenHead_Some [OF Some [unfolded tr]]
        from th(1) have "length rest < length str" using Cons by simp
        with 1 have "mapTokens f rest = mapTokens g rest" by blast
        with Some tr Cons True assms [OF th(2,3)] show ?thesis by (simp add: mapTokens_brace)
      qed
    qed
  qed
qed

lemma mapTokens_id: "mapTokens (\<lambda>ds. CHR ''{'' # ds @ ''}'') str = str"
proof (induction str rule: length_induct)
  case (1 str)
  show ?case
  proof (cases str)
    case Nil
    then show ?thesis by simp
  next
    case (Cons c cs)
    have IHcs: "mapTokens (\<lambda>ds. CHR ''{'' # ds @ ''}'') cs = cs" using 1 Cons by simp
    show ?thesis
    proof (cases "c = CHR ''{''")
      case False
      with Cons IHcs show ?thesis by (simp add: mapTokens_other)
    next
      case True
      show ?thesis
      proof (cases "tokenHead cs")
        case None
        with Cons True IHcs show ?thesis by (simp add: mapTokens_brace)
      next
        case (Some tr)
        obtain ds rest where tr: "tr = (ds, rest)" by (cases tr)
        note th = tokenHead_Some [OF Some [unfolded tr]]
        from th(1) have "length rest < length str" using Cons by simp
        with 1 have "mapTokens (\<lambda>ds. CHR ''{'' # ds @ ''}'') rest = rest" by blast
        with Some tr Cons True th(1) show ?thesis by (simp add: mapTokens_brace)
      qed
    qed
  qed
qed

lemma substituteTokens_rule: "substituteTokens m = mapTokens (tokenRule m)"
  by (simp add: substituteTokens_def)

lemma replaceText_Nil: "replaceText [] str = str"
  by (simp add: replaceText_def)

lemma replaceText_Cons:
  "replaceText ((k, v) # m) str
     = replaceText m (if changed (k, v) then replaceParam k (newToken v) str else str)"
  by (simp add: replaceText_def changed_def newToken_def)

lemma tokenRule_unchanged: "\<not> changed (k, v) \<Longrightarrow> tokenRule ((k, v) # m) = tokenRule m"
  by (rule ext) (simp add: tokenRule_def)

lemma tokenRule_hit: "changed (k, v) \<Longrightarrow> tokenRule ((k, v) # m) k = newToken v"
  by (simp add: tokenRule_def)

lemma tokenRule_miss: "ds \<noteq> k \<Longrightarrow> tokenRule ((k, v) # m) ds = tokenRule m ds"
  by (simp add: tokenRule_def)

lemma tokenRule_absent:
  assumes "\<not> (\<exists>later\<in>set m. fst later = ds \<and> changed later)"
  shows "tokenRule m ds = CHR ''{'' # ds @ ''}''"
proof -
  have "find (\<lambda>entry. fst entry = ds \<and> changed entry) m = None"
    using assms by (simp add: find_None_iff)
  then show ?thesis by (simp add: tokenRule_def)
qed

lemma substitute_step:
  assumes k: "k \<noteq> []" "list_all isDigit k"
    and nocoll: "changed (k, v) \<Longrightarrow> \<not> (\<exists>later\<in>set m. fst later = numToString v \<and> changed later)"
  shows "mapTokens (tokenRule m) (if changed (k, v) then replaceParam k (newToken v) str else str)
       = mapTokens (tokenRule ((k, v) # m)) str"
proof (cases "changed (k, v)")
  case False
  then show ?thesis by (simp add: tokenRule_unchanged)
next
  case True
  let ?f = "\<lambda>ds. if ds = k then newToken v else ''{'' @ ds @ ''}''"
  have nt: "newToken v = CHR ''{'' # numToString v @ ''}''"
    by (simp add: newToken_def)
  have br: "braced ?f"
    unfolding braced_def
  proof (intro allI impI)
    fix ds :: string
    assume ds: "ds \<noteq> [] \<and> list_all isDigit ds"
    show "\<exists>x. ?f ds = CHR ''{'' # x @ ''}'' \<and> list_all plain x"
    proof (cases "ds = k")
      case True
      then show ?thesis
        using nt plain_numToString [of v] by (intro exI [of _ "numToString v"]) simp
    next
      case False
      then show ?thesis
        using ds plain_digits by (intro exI [of _ ds]) simp
    qed
  qed
  have rule_new: "mapTokens (tokenRule m) (newToken v) = newToken v"
  proof -
    have "tokenRule m (numToString v) = newToken v"
      using tokenRule_absent [OF nocoll [OF True]] nt by simp
    then show ?thesis
      unfolding nt
      using mapTokens_braced [OF plain_numToString, of "tokenRule m" v "[]"]
      by (simp add: nt)
  qed
  have pointwise: "\<And>ds. ds \<noteq> [] \<Longrightarrow> list_all isDigit ds \<Longrightarrow>
      mapTokens (tokenRule m) (?f ds) = tokenRule ((k, v) # m) ds"
  proof -
    fix ds :: string
    assume ds: "ds \<noteq> []" "list_all isDigit ds"
    show "mapTokens (tokenRule m) (?f ds) = tokenRule ((k, v) # m) ds"
    proof (cases "ds = k")
      case True
      then show ?thesis using rule_new tokenRule_hit [OF \<open>changed (k, v)\<close>] by simp
    next
      case False
      have "mapTokens (tokenRule m) (CHR ''{'' # ds @ CHR ''}'' # []) = tokenRule m ds"
        using mapTokens_braced [OF plain_digits [OF ds(2)], of "tokenRule m" "[]"] ds by simp
      with False show ?thesis by (simp add: tokenRule_miss)
    qed
  qed
  have "mapTokens (tokenRule m) (replaceParam k (newToken v) str)
      = mapTokens (tokenRule m) (mapTokens ?f str)"
    by (simp only: replaceParam_mapTokens [OF k])
  also have "\<dots> = mapTokens (\<lambda>ds. mapTokens (tokenRule m) (?f ds)) str"
    using br by (rule mapTokens_compose)
  also have "\<dots> = mapTokens (tokenRule ((k, v) # m)) str"
    using pointwise by (rule mapTokens_cong)
  finally show ?thesis using True by simp
qed

lemma resolved_tail: "resolved (e # m) \<Longrightarrow> resolved m"
  unfolding resolved_def
proof (intro ballI impI)
  fix entry
  assume all: "\<forall>entry\<in>set (e # m). changed entry \<longrightarrow>
      \<not> (\<exists>later\<in>set (e # m). fst later = numToString (snd entry) \<and> changed later)"
    and mem: "entry \<in> set m" and ch: "changed entry"
  from mem have "entry \<in> set (e # m)" by simp
  with all ch have "\<not> (\<exists>later\<in>set (e # m). fst later = numToString (snd entry) \<and> changed later)"
    by blast
  then show "\<not> (\<exists>later\<in>set m. fst later = numToString (snd entry) \<and> changed later)"
    by auto
qed

lemma resolved_head:
  assumes "resolved ((k, v) # m)" and "changed (k, v)"
  shows "\<not> (\<exists>later\<in>set m. fst later = numToString v \<and> changed later)"
proof -
  have "(k, v) \<in> set ((k, v) # m)" by simp
  with assms have "\<not> (\<exists>later\<in>set ((k, v) # m). fst later = numToString (snd (k, v)) \<and> changed later)"
    unfolding resolved_def by blast
  then show ?thesis by simp
qed

lemma replaceText_substitute:
  assumes "numeralKeys m" and "resolved m"
  shows "replaceText m str = substituteTokens m str"
  using assms
proof (induction m arbitrary: str)
  case Nil
  have "tokenRule [] = (\<lambda>ds. CHR ''{'' # ds @ ''}'')"
    by (rule ext) (simp add: tokenRule_def)
  then show ?case
    by (simp add: replaceText_Nil substituteTokens_rule mapTokens_id)
next
  case (Cons e m)
  obtain k v where e: "e = (k, v)" by (cases e)
  have keys: "k \<noteq> []" "list_all isDigit k" and nk: "numeralKeys m"
    using Cons.prems(1) e by (simp_all add: numeralKeys_def)
  have res: "resolved m"
    using Cons.prems(2) by (rule resolved_tail)
  have nocoll: "changed (k, v) \<Longrightarrow> \<not> (\<exists>later\<in>set m. fst later = numToString v \<and> changed later)"
    using Cons.prems(2) [unfolded e] by (rule resolved_head)
  have "replaceText (e # m) str
      = replaceText m (if changed (k, v) then replaceParam k (newToken v) str else str)"
    unfolding e by (rule replaceText_Cons)
  also have "\<dots> = mapTokens (tokenRule m)
      (if changed (k, v) then replaceParam k (newToken v) str else str)"
    using Cons.IH [OF nk res] by (simp add: substituteTokens_rule)
  also have "\<dots> = mapTokens (tokenRule ((k, v) # m)) str"
    using keys nocoll by (rule substitute_step)
  finally show ?case by (simp add: substituteTokens_rule e)
qed

lemma numeralKeys_showNat: "numeralKeys (map (\<lambda>(n, v). (showNat n, v)) entries)"
  by (auto simp: numeralKeys_def showNat_nonempty showNat_digits)

section \<open>Claims about the apply step\<close>

lemma replaceParam_other_token:
  assumes "k \<noteq> []" and "list_all isDigit k" and "ds \<noteq> []" and "list_all isDigit ds" and "ds \<noteq> k"
  shows "replaceParam k rep (CHR ''{'' # ds @ ''}'') = CHR ''{'' # ds @ ''}''"
  using assms tokenHead_intro [of ds "[]"]
  by (simp add: replaceParam_brace del: replaceParam.simps(2))

text \<open>
  Claim C5. For a resolved mapping whose keys are numerals, the apply step is the
  substitution of tokens: every token \<open>{original}\<close> of an entry with
  \<open>original != newValue\<close> becomes \<open>{newValue}\<close>, and every other token and every other
  character of the text stays. A token with other digits than the key, such as \<open>{12}\<close>
  for the key \<open>1\<close>, is left as it is. The result is a new text.
\<close>

theorem apply_step_substitutes_tokens:
  assumes "numeralKeys m" and "resolved m"
  shows "replaceText m str = substituteTokens m str
       \<and> (\<forall>entry\<in>set m. \<forall>ds. ds \<noteq> [] \<and> list_all isDigit ds \<and> ds \<noteq> fst entry \<longrightarrow>
             replaceParam (fst entry) rep (CHR ''{'' # ds @ ''}'') = CHR ''{'' # ds @ ''}'')"
proof
  show "replaceText m str = substituteTokens m str"
    using assms by (rule replaceText_substitute)
  show "\<forall>entry\<in>set m. \<forall>ds. ds \<noteq> [] \<and> list_all isDigit ds \<and> ds \<noteq> fst entry \<longrightarrow>
             replaceParam (fst entry) rep (CHR ''{'' # ds @ ''}'') = CHR ''{'' # ds @ ''}''"
  proof (intro ballI allI impI)
    fix entry ds
    assume "entry \<in> set m" and ds: "ds \<noteq> [] \<and> list_all isDigit ds \<and> ds \<noteq> fst entry"
    with assms(1) have "fst entry \<noteq> []" "list_all isDigit (fst entry)"
      by (simp_all add: numeralKeys_def)
    with ds show "replaceParam (fst entry) rep (CHR ''{'' # ds @ ''}'') = CHR ''{'' # ds @ ''}''"
      by (intro replaceParam_other_token) simp_all
  qed
qed

lemma example_changed:
  "changed (''1'', Dec 2 0)" "\<not> changed (''2'', Dec 2 0)" "\<not> changed (''12'', Dec 12 0)"
  by (simp_all add: changed_def strictNeq_def Number_simps)

lemma exampleMapping_keys: "numeralKeys exampleMapping"
  by (simp add: numeralKeys_def exampleMapping_def isDigit_def)

lemma exampleMapping_resolved: "resolved exampleMapping"
  by (simp add: resolved_def exampleMapping_def example_changed toString_simps)

lemma exampleMapping_apply:
  "replaceText exampleMapping ''a{1}b{12}c{2}{01}'' = ''a{2}b{12}c{2}{01}''"
  by (simp add: replaceText_def exampleMapping_def strictNeq_def Number_simps toString_simps)

theorem apply_step_substitutes_tokens_witness:
  "numeralKeys exampleMapping \<and> resolved exampleMapping
   \<and> substituteTokens exampleMapping ''a{1}b{12}c{2}{01}'' = ''a{2}b{12}c{2}{01}''
   \<and> replaceParam ''1'' ''{2}'' ''{12}'' = ''{12}''"
proof -
  have d12: "''12'' \<noteq> [] \<and> list_all isDigit ''12'' \<and> ''12'' \<noteq> fst (''1'', Dec 2 0)"
    by (simp add: isDigit_def)
  have mem: "(''1'', Dec 2 0) \<in> set exampleMapping"
    by (simp add: exampleMapping_def)
  note inst = apply_step_substitutes_tokens [OF exampleMapping_keys exampleMapping_resolved,
      of "''a{1}b{12}c{2}{01}''" "''{2}''"]
  from inst have "substituteTokens exampleMapping ''a{1}b{12}c{2}{01}'' = ''a{2}b{12}c{2}{01}''"
    using exampleMapping_apply by simp
  moreover from inst mem d12 have "replaceParam ''1'' ''{2}'' ''{12}'' = ''{12}''"
    by fastforce
  ultimately show ?thesis
    using exampleMapping_keys exampleMapping_resolved by blast
qed

text \<open>
  Outside the claim: a mapping that is not resolved is applied entry after entry, so a
  token renamed by one entry is renamed again by a later one.
\<close>

lemma chain_mapping_composes:
  "replaceText [(''1'', Dec 2 0), (''2'', Dec 3 0)] ''{1}{2}'' = ''{3}{3}''"
  by (simp add: replaceText_def strictNeq_def Number_simps toString_simps)

section \<open>Claims about saving\<close>

lemma allValuesValid_iff: "allValuesValid groups \<longleftrightarrow> \<not> hasInvalidValue groups"
  by (simp add: allValuesValid_def hasInvalidValue_def list_all_iff isNaN_def case_prod_beta)

lemma set_mapSet: "set (mapSet m k v) \<subseteq> insert (k, v) (set m)"
  by (induction m) (auto split: if_splits)

lemma foldl_objSet_values:
  assumes "\<forall>entry\<in>set acc. P (snd entry)" and "\<forall>e\<in>set xs. P (vf e)"
  shows "\<forall>entry\<in>set (foldl (\<lambda>obj e. objSet obj (kf e) (vf e)) acc xs). P (snd entry)"
  using assms
proof (induction xs arbitrary: acc)
  case Nil
  then show ?case by simp
next
  case (Cons x xs)
  have "\<forall>entry\<in>set (objSet acc (kf x) (vf x)). P (snd entry)"
  proof
    fix entry
    assume "entry \<in> set (objSet acc (kf x) (vf x))"
    then have "entry = (kf x, vf x) \<or> entry \<in> set acc"
      using set_mapSet [of acc "kf x" "vf x"] by (auto simp: objSet_def)
    with Cons.prems show "P (snd entry)" by auto
  qed
  moreover have "\<forall>e\<in>set xs. P (vf e)" using Cons.prems(2) by simp
  ultimately show ?case using Cons.IH by simp
qed

lemma numericReplacementsOf_values:
  assumes "\<forall>entry\<in>set obj. Number (snd entry) \<noteq> NaN"
  shows "\<forall>entry\<in>set (numericReplacementsOf obj). snd entry \<noteq> NaN"
proof -
  have eq: "numericReplacementsOf obj
      = foldl (\<lambda>acc e. objSet acc (numToString (Number (fst e))) (Number (snd e))) [] obj"
    by (simp add: numericReplacementsOf_def case_prod_unfold)
  show ?thesis
    unfolding eq using assms by (intro foldl_objSet_values) simp_all
qed

lemma fieldLoop_numbers:
  assumes "\<not> hasInvalidValue groups" and "numbersOnly acc"
    and "fieldLoop groups paramKey fnames acc = Inr out"
  shows "numbersOnly out"
  using assms(2,3)
proof (induction fnames arbitrary: acc)
  case Nil
  then show ?case by simp
next
  case (Cons fname fnames)
  from Cons.prems(2) obtain obj where obj: "map_of groups paramKey = Some obj"
    by (cases "map_of groups paramKey") auto
  then have "(paramKey, obj) \<in> set groups" by (rule map_of_SomeD)
  with assms(1) have "\<forall>entry\<in>set obj. Number (snd entry) \<noteq> NaN"
    unfolding hasInvalidValue_def by fastforce
  then have vals: "\<forall>entry\<in>set (numericReplacementsOf obj). snd entry \<noteq> NaN"
    by (rule numericReplacementsOf_values)
  have "numbersOnly (objSet acc fname (numericReplacementsOf obj))"
    unfolding numbersOnly_def
  proof
    fix f
    assume "f \<in> set (objSet acc fname (numericReplacementsOf obj))"
    then have "f = (fname, numericReplacementsOf obj) \<or> f \<in> set acc"
      using set_mapSet [of acc fname "numericReplacementsOf obj"] by (auto simp: objSet_def)
    with vals Cons.prems(1) show "\<forall>entry\<in>set (snd f). snd entry \<noteq> NaN"
      unfolding numbersOnly_def by auto
  qed
  moreover have "fieldLoop groups paramKey fnames (objSet acc fname (numericReplacementsOf obj)) = Inr out"
    using Cons.prems(2) obj by simp
  ultimately show ?case by (rule Cons.IH)
qed

lemma groupLoop_numbers:
  assumes "\<not> hasInvalidValue groups" and "numbersOnly acc"
    and "groupLoop groups pgs acc = Inr out"
  shows "numbersOnly out"
  using assms(2,3)
proof (induction pgs arbitrary: acc)
  case Nil
  then show ?case by simp
next
  case (Cons pg pgs)
  obtain paramKey fnames where pg: "pg = (paramKey, fnames)" by (cases pg)
  from Cons.prems(2) pg obtain acc' where
    fl: "fieldLoop groups paramKey fnames acc = Inr acc'" and gl: "groupLoop groups pgs acc' = Inr out"
    by (cases "fieldLoop groups paramKey fnames acc") auto
  from assms(1) Cons.prems(1) fl have "numbersOnly acc'" by (rule fieldLoop_numbers)
  then show ?case using gl by (rule Cons.IH)
qed

text \<open>
  Claim C4, as amended. A save is rejected exactly when some value is empty or does not
  convert to a number: then the dialog shows the validation error, \<open>onSave\<close> is not called,
  and the record is as before. Otherwise the dialog is unchanged, the save goes on, and
  every value handed to \<open>onSave\<close> is a number.
\<close>

theorem save_rejects_invalid_values:
  "(hasInvalidValue (groupReplacements ms) \<longrightarrow>
      handleSave rid ms = (ms\<lparr>errorMessage := InvalidValueNotice\<rparr>, NoCall)
      \<and> saveClick fieldMetaList record ms = (ms\<lparr>errorMessage := InvalidValueNotice\<rparr>, record))
   \<and> (\<not> hasInvalidValue (groupReplacements ms) \<longrightarrow>
      fst (handleSave rid ms) = ms \<and> snd (handleSave rid ms) \<noteq> NoCall
      \<and> (\<forall>rid' fieldReplacements. snd (handleSave rid ms) = OnSave rid' fieldReplacements
            \<longrightarrow> numbersOnly fieldReplacements))"
proof (intro conjI impI allI)
  assume "hasInvalidValue (groupReplacements ms)"
  then have inv: "\<not> allValuesValid (groupReplacements ms)"
    by (simp add: allValuesValid_iff)
  then show "handleSave rid ms = (ms\<lparr>errorMessage := InvalidValueNotice\<rparr>, NoCall)"
    by (simp add: handleSave_def)
  from inv show "saveClick fieldMetaList record ms = (ms\<lparr>errorMessage := InvalidValueNotice\<rparr>, record)"
    by (simp add: saveClick_def handleSave_def)
next
  assume ok: "\<not> hasInvalidValue (groupReplacements ms)"
  then have v: "allValuesValid (groupReplacements ms)"
    by (simp add: allValuesValid_iff)
  then show "fst (handleSave rid ms) = ms"
    by (simp add: handleSave_def split: sum.splits)
  from v show "snd (handleSave rid ms) \<noteq> NoCall"
    by (simp add: handleSave_def split: sum.splits)
  fix rid' fieldReplacements
  assume "snd (handleSave rid ms) = OnSave rid' fieldReplacements"
  with v have "groupLoop (groupReplacements ms) (parameterGroups ms) [] = Inr fieldReplacements"
    by (auto simp: handleSave_def split: sum.splits)
  moreover have "numbersOnly []" by (simp add: numbersOnly_def)
  ultimately show "numbersOnly fieldReplacements"
    using ok groupLoop_numbers by blast
qed

lemma Number_abc: "Number ''abc'' = NaN"
  by (simp add: Number_simps)

lemma Number_1: "Number ''1'' = Dec 1 0"
  by (simp add: Number_simps)

lemma Number_1_5: "Number ''1.5'' = Dec 15 (- 1)"
  by (simp add: Number_simps)

lemma Number_blank: "Number '' '' = Dec 0 0"
  by (simp add: Number_simps)

theorem save_rejects_invalid_values_witness:
  "hasInvalidValue (groupReplacements (exampleModal ''abc''))
   \<and> handleSave ''r3'' (exampleModal ''abc'')
       = ((exampleModal ''abc'')\<lparr>errorMessage := InvalidValueNotice\<rparr>, NoCall)
   \<and> saveClick exampleMetas (exampleRecord ''r3'' ''{1}'' ''{2}'') (exampleModal ''abc'')
       = ((exampleModal ''abc'')\<lparr>errorMessage := InvalidValueNotice\<rparr>,
          exampleRecord ''r3'' ''{1}'' ''{2}'')"
proof -
  have "hasInvalidValue (groupReplacements (exampleModal ''abc''))"
    by (simp add: hasInvalidValue_def exampleModal_def Number_abc)
  with save_rejects_invalid_values
    [of "exampleModal ''abc''" "''r3''" exampleMetas "exampleRecord ''r3'' ''{1}'' ''{2}''"]
  show ?thesis by blast
qed

text \<open>
  The claim as written fails: the value \<open>1.5\<close> is not an integer, and the save is not
  rejected; the number \<open>1.5\<close> is handed to \<open>onSave\<close>.
\<close>

theorem non_integer_value_is_saved:
  "handleSave ''r3'' (exampleModal ''1.5'')
     = (exampleModal ''1.5'', OnSave ''r3'' [(''A'', [(''1'', Dec 15 (- 1))])])
   \<and> \<not> isInteger (Dec 15 (- 1))"
  by (simp add: handleSave_def allValuesValid_def exampleModal_def isNaN_def Number_1_5 Number_1
      numericReplacementsOf_def objSet_def isInteger_def toString_simps)

text \<open>Outside the amended claim: a value of blanks is not empty and converts to zero.\<close>

lemma blank_value_is_saved_as_zero:
  "handleSave ''r3'' (exampleModal '' '')
     = (exampleModal '' '', OnSave ''r3'' [(''A'', [(''1'', Dec 0 0)])])"
  by (simp add: handleSave_def allValuesValid_def exampleModal_def isNaN_def Number_blank Number_1
      numericReplacementsOf_def objSet_def toString_simps)

end
